theory Spec2Isabelle
  imports Main
begin

section \<open>Shared vocabulary of the two managers in exec.go\<close>

text \<open>
  The embedding follows exec.go, which holds the Exec Manager and the Log Streamer of
  the client. Calls to the \<open>Logger\<close> write diagnostics and touch nothing that the
  managers keep; they are left out.

  Both managers keep a registry from caller-supplied identifiers to pointers
  (\<open>map[string]*ExecSession\<close>, \<open>map[string]*LogStream\<close>). A pointer is an
  address into a store of unit objects, so that a unit which has been deleted from the
  registry can still be inspected, as the worker goroutines that hold the pointer do.
\<close>

type_synonym addr = nat

text \<open>The values of \<open>fmt.Errorf\<close> that the start functions return.\<close>

datatype error =
    AlreadyExists string
  | PtyStartFailed
  | StdoutPipeFailed
  | StderrPipeFailed
  | CommandStartFailed
  | NilCommand

text \<open>
  \<open>cmd.Process\<close> is \<open>nil\<close> (\<open>None\<close>) until the command has been started; afterwards
  it is a process on which \<open>Kill()\<close> has or has not been called. An \<open>*os.File\<close> is
  open until \<open>Close()\<close> has been called on it.
\<close>

datatype proc = Running | Killed

datatype handle = Open | Closed

text \<open>
  What the operating system answers. \<open>fileExists\<close> is a helper of the client package
  that exec.go calls and does not define; it is taken as a parameter.
  \<open>pty_Start p\<close> tells whether \<open>pty.Start(exec.Command(p))\<close> returns without error.
\<close>

datatype spawn_result = StdoutPipeError | StderrPipeError | StartError | Started

record env =
  fileExists :: "string \<Rightarrow> bool"
  pty_Start :: "string \<Rightarrow> bool"
  cmd_Start :: "string list \<Rightarrow> spawn_result"

section \<open>Exec Manager\<close>

text \<open>
  \<open>done_e\<close> counts the executions of \<open>close(session.done)\<close>: the channel is closed
  as soon as the count is positive, and a second close would panic in Go.
\<close>

record ExecSession =
  id_e :: string
  cmd_e :: string
  process_e :: "proc option"
  pty_e :: "handle option"
  done_e :: nat

datatype exec_worker = ReadLoop addr | WaitLoop addr

text \<open>A callback invocation: \<open>onOutput(id, stream, data)\<close>, \<open>onExit(id, code)\<close>,
  \<open>onError(id, err)\<close>.\<close>

datatype exec_event =
    Output string string string
  | Exit string int
  | Error string

text \<open>
  \<open>onOutput\<close>, \<open>onExit\<close> and \<open>onError\<close> say whether the callback is non-nil;
  \<open>invoked\<close> is the sequence of callback invocations made so far and \<open>goroutines\<close>
  the workers launched by \<open>go\<close> statements.
\<close>

record ExecManager =
  sessions :: "string \<rightharpoonup> addr"
  store_e :: "ExecSession list"
  goroutines_e :: "exec_worker list"
  onOutput :: bool
  onExit :: bool
  onError :: bool
  invoked :: "exec_event list"

definition NewExecManager :: "bool \<Rightarrow> bool \<Rightarrow> bool \<Rightarrow> ExecManager" where
  "NewExecManager out ex er =
     \<lparr>sessions = Map.empty, store_e = [], goroutines_e = [],
      onOutput = out, onExit = ex, onError = er, invoked = []\<rparr>"

subsection \<open>Start\<close>

text \<open>Lines 52 to 59 of \<open>Start\<close>: the shell that is spawned.\<close>

definition shellPath :: "(string \<Rightarrow> bool) \<Rightarrow> string \<Rightarrow> string" where
  "shellPath exists shell =
     (if shell = [] \<or> \<not> exists shell
      then (if exists ''/bin/bash'' then ''/bin/bash'' else ''/bin/sh'')
      else shell)"

text \<open>
  \<open>Start\<close> takes the lock twice. Its three phases are kept apart so that the
  interleaving of two calls can be written down: the existence check under the first
  lock, the spawn outside any lock, the registration under the second lock followed by
  the two \<open>go\<close> statements.
\<close>

definition Start_check :: "string \<Rightarrow> ExecManager \<Rightarrow> bool" where
  "Start_check sessionID m = (sessions m sessionID \<noteq> None)"

definition Start_spawn ::
  "env \<Rightarrow> string \<Rightarrow> string \<Rightarrow> ExecManager \<Rightarrow> (error + addr) \<times> ExecManager" where
  "Start_spawn e sessionID shell m =
     (let p = shellPath (fileExists e) shell in
      if \<not> pty_Start e p then (Inl PtyStartFailed, m)
      else (Inr (length (store_e m)),
            m\<lparr>store_e := store_e m @
                 [\<lparr>id_e = sessionID, cmd_e = p, process_e = Some Running,
                   pty_e = Some Open, done_e = 0\<rparr>]\<rparr>))"

definition Start_register :: "string \<Rightarrow> addr \<Rightarrow> ExecManager \<Rightarrow> ExecManager" where
  "Start_register sessionID a m =
     m\<lparr>sessions := (sessions m)(sessionID \<mapsto> a),
       goroutines_e := goroutines_e m @ [ReadLoop a, WaitLoop a]\<rparr>"

definition ExecManager_Start ::
  "env \<Rightarrow> string \<Rightarrow> string \<Rightarrow> ExecManager \<Rightarrow> (error + unit) \<times> ExecManager" where
  "ExecManager_Start e sessionID shell m =
     (if Start_check sessionID m then (Inl (AlreadyExists sessionID), m)
      else (case Start_spawn e sessionID shell m of
              (Inl err, m') \<Rightarrow> (Inl err, m')
            | (Inr a, m') \<Rightarrow> (Inr (), Start_register sessionID a m')))"

subsection \<open>Stop and StopAll\<close>

text \<open>Lines 112 to 118: what \<open>Stop\<close> does to the session it has removed.\<close>

definition teardown_e :: "ExecSession \<Rightarrow> ExecSession" where
  "teardown_e s =
     s\<lparr>done_e := Suc (done_e s),
       process_e := (if process_e s \<noteq> None then Some Killed else process_e s),
       pty_e := (if pty_e s \<noteq> None then Some Closed else pty_e s)\<rparr>"

definition ExecManager_Stop :: "string \<Rightarrow> ExecManager \<Rightarrow> ExecManager" where
  "ExecManager_Stop sessionID m =
     (case sessions m sessionID of
        None \<Rightarrow> m
      | Some a \<Rightarrow>
          m\<lparr>sessions := (sessions m)(sessionID := None),
            store_e := (store_e m)[a := teardown_e (store_e m ! a)]\<rparr>)"

text \<open>
  \<open>StopAll\<close> collects the keys of the map and stops each. Go leaves the iteration
  order of a map open, so the snapshot \<open>ids\<close> is a parameter: any enumeration of the
  keys.
\<close>

definition ExecManager_StopAll :: "string list \<Rightarrow> ExecManager \<Rightarrow> ExecManager" where
  "ExecManager_StopAll ids m = fold ExecManager_Stop ids m"

subsection \<open>The workers\<close>

text \<open>
  \<open>cmd.Wait()\<close> returns \<open>nil\<close>, an \<open>*exec.ExitError\<close> or another error. The
  package os/exec documents which: \<open>nil\<close> when the command exits with status 0, an
  \<open>*ExitError\<close> when it does not complete successfully, other error types for I/O
  problems; and \<open>ExitCode()\<close> is the exit status of an exited process and \<open>-1\<close> for a
  process terminated by a signal.
\<close>

datatype proc_end = Exited nat | Signaled nat | WaitFailed

datatype wait_error = ExitError int | OtherError

definition cmd_Wait :: "proc_end \<Rightarrow> wait_error option" where
  "cmd_Wait t =
     (case t of
        Exited c \<Rightarrow> (if c = 0 then None else Some (ExitError (int c)))
      | Signaled sig \<Rightarrow> Some (ExitError (- 1))
      | WaitFailed \<Rightarrow> Some OtherError)"

text \<open>Lines 160 to 167 of \<open>waitLoop\<close>.\<close>

definition exitCode :: "wait_error option \<Rightarrow> int" where
  "exitCode err =
     (case err of
        None \<Rightarrow> 0
      | Some (ExitError c) \<Rightarrow> c
      | Some OtherError \<Rightarrow> 1)"

definition waitLoop :: "addr \<Rightarrow> wait_error option \<Rightarrow> ExecManager \<Rightarrow> ExecManager" where
  "waitLoop a err m =
     (let session = store_e m ! a;
          m' = (if onExit m
                then m\<lparr>invoked := invoked m @ [Exit (id_e session) (exitCode err)]\<rparr>
                else m)
      in ExecManager_Stop (id_e session) m')"

text \<open>
  One turn of \<open>readLoop\<close> has two parts, with the blocking \<open>pty.Read\<close> between them:
  the \<open>select\<close> on the done channel, and what is done with the result of the read.
  \<open>readLoop_select\<close> is true when the loop returns at the \<open>select\<close>;
  \<open>readLoop_read\<close> returns whether the loop goes on.
\<close>

datatype read_result = ReadError | ReadBytes string

definition readLoop_select :: "addr \<Rightarrow> ExecManager \<Rightarrow> bool" where
  "readLoop_select a m = (0 < done_e (store_e m ! a))"

definition readLoop_read :: "addr \<Rightarrow> read_result \<Rightarrow> ExecManager \<Rightarrow> bool \<times> ExecManager" where
  "readLoop_read a r m =
     (let session = store_e m ! a in
      case r of
        ReadError \<Rightarrow>
          (False, if onError m then m\<lparr>invoked := invoked m @ [Error (id_e session)]\<rparr> else m)
      | ReadBytes buf \<Rightarrow>
          (True, if buf \<noteq> [] \<and> onOutput m
                 then m\<lparr>invoked := invoked m @ [Output (id_e session) ''stdout'' buf]\<rparr>
                 else m))"

text \<open>The loop over the results of the successive reads, as long as there are any.\<close>

fun readLoop :: "addr \<Rightarrow> read_result list \<Rightarrow> ExecManager \<Rightarrow> ExecManager" where
  "readLoop a [] m = m"
| "readLoop a (r # rs) m =
     (if readLoop_select a m then m
      else (case readLoop_read a r m of
              (True, m') \<Rightarrow> readLoop a rs m'
            | (False, m') \<Rightarrow> m'))"

section \<open>Log Streamer\<close>

datatype LogStreamType = LogStreamTypeCommand | LogStreamTypeFile

text \<open>
  \<open>cmd\<close> is the argument vector of the \<open>*exec.Cmd\<close> (\<open>None\<close> for \<open>nil\<close>),
  \<open>process\<close> is \<open>cmd.Process\<close>, \<open>file_h\<close> the \<open>*os.File\<close> of field \<open>file\<close>, and \<open>done_ch\<close> counts
  the executions of \<open>close(stream.done)\<close>.
\<close>

record LogStream =
  ID :: string
  Service :: string
  StreamType :: LogStreamType
  cmd :: "string list option"
  process :: "proc option"
  file_h :: "handle option"
  done_ch :: nat
  stopped :: bool

datatype pipe = Stdout | Stderr

datatype log_worker = ReadPipe addr pipe | Waiter addr | FileWorker addr string

record LogStreamer =
  streams :: "string \<rightharpoonup> addr"
  store :: "LogStream list"
  goroutines :: "log_worker list"

definition NewLogStreamer :: LogStreamer where
  "NewLogStreamer = \<lparr>streams = Map.empty, store = [], goroutines = []\<rparr>"

text \<open>The stream object that a start function builds, before anything is started.\<close>

definition new_stream ::
  "string \<Rightarrow> string \<Rightarrow> LogStreamType \<Rightarrow> string list option \<Rightarrow> LogStream" where
  "new_stream streamID serviceName t c =
     \<lparr>ID = streamID, Service = serviceName, StreamType = t, cmd = c,
      process = None, file_h = None, done_ch = 0, stopped = False\<rparr>"

text \<open>
  \<open>startCommandStream\<close> on the stream at address \<open>a\<close>. The three error returns are
  the answers of the operating system; a \<open>nil\<close> command would be a nil dereference,
  which no caller produces.
\<close>

definition startCommandStream ::
  "env \<Rightarrow> addr \<Rightarrow> LogStreamer \<Rightarrow> (error + unit) \<times> LogStreamer" where
  "startCommandStream e a l =
     (let stream = store l ! a in
      case cmd stream of
        None \<Rightarrow> (Inl NilCommand, l)
      | Some argv \<Rightarrow>
          (case cmd_Start e argv of
             StdoutPipeError \<Rightarrow> (Inl StdoutPipeFailed, l)
           | StderrPipeError \<Rightarrow> (Inl StderrPipeFailed, l)
           | StartError \<Rightarrow> (Inl CommandStartFailed, l)
           | Started \<Rightarrow>
               (Inr (),
                l\<lparr>store := (store l)[a := stream\<lparr>process := Some Running\<rparr>],
                  goroutines := goroutines l @
                    [ReadPipe a Stdout, ReadPipe a Stderr, Waiter a]\<rparr>)))"

text \<open>\<open>startFileStream\<close> launches the worker that waits for the file and returns
  \<open>nil\<close>.\<close>

definition startFileStream ::
  "addr \<Rightarrow> string \<Rightarrow> LogStreamer \<Rightarrow> (error + unit) \<times> LogStreamer" where
  "startFileStream a filePath l =
     (Inr (), l\<lparr>goroutines := goroutines l @ [FileWorker a filePath]\<rparr>)"

text \<open>
  The five start functions share their shape: the duplicate check under the lock, the
  construction of the stream, the start, and the registration, all before the deferred
  unlock.
\<close>

definition alloc :: "LogStream \<Rightarrow> LogStreamer \<Rightarrow> LogStreamer" where
  "alloc stream l = l\<lparr>store := store l @ [stream]\<rparr>"

definition register :: "string \<Rightarrow> addr \<Rightarrow> LogStreamer \<Rightarrow> LogStreamer" where
  "register streamID a l = l\<lparr>streams := (streams l)(streamID \<mapsto> a)\<rparr>"

definition StartJournalctlStream ::
  "env \<Rightarrow> string \<Rightarrow> LogStreamer \<Rightarrow> (error + unit) \<times> LogStreamer" where
  "StartJournalctlStream e streamID l =
     (if streams l streamID \<noteq> None then (Inl (AlreadyExists streamID), l)
      else
        (let a = length (store l);
             stream = new_stream streamID [] LogStreamTypeCommand
               (Some [''journalctl'', ''-f'', ''--no-pager'', ''-o'', ''short-precise''])
         in case startCommandStream e a (alloc stream l) of
              (Inl err, l') \<Rightarrow> (Inl err, l')
            | (Inr u, l') \<Rightarrow> (Inr (), register streamID a l')))"

definition StartServiceStream ::
  "env \<Rightarrow> string \<Rightarrow> string \<Rightarrow> LogStreamer \<Rightarrow> (error + unit) \<times> LogStreamer" where
  "StartServiceStream e streamID serviceName l =
     (if streams l streamID \<noteq> None then (Inl (AlreadyExists streamID), l)
      else
        (let a = length (store l);
             stream = new_stream streamID serviceName LogStreamTypeCommand
               (Some [''journalctl'', ''-f'', ''--no-pager'', ''-u'', serviceName,
                      ''-o'', ''short-precise''])
         in case startCommandStream e a (alloc stream l) of
              (Inl err, l') \<Rightarrow> (Inl err, l')
            | (Inr u, l') \<Rightarrow> (Inr (), register streamID a l')))"

definition StartAppLogStream ::
  "string \<Rightarrow> LogStreamer \<Rightarrow> (error + unit) \<times> LogStreamer" where
  "StartAppLogStream streamID l =
     (if streams l streamID \<noteq> None then (Inl (AlreadyExists streamID), l)
      else
        (let a = length (store l);
             stream = new_stream streamID [] LogStreamTypeFile None
         in case startFileStream a ''/tmp/strux-backend.log'' (alloc stream l) of
              (Inl err, l') \<Rightarrow> (Inl err, l')
            | (Inr u, l') \<Rightarrow> (Inr (), register streamID a l')))"

definition StartCageLogStream ::
  "string \<Rightarrow> LogStreamer \<Rightarrow> (error + unit) \<times> LogStreamer" where
  "StartCageLogStream streamID l =
     (if streams l streamID \<noteq> None then (Inl (AlreadyExists streamID), l)
      else
        (let a = length (store l);
             stream = new_stream streamID [] LogStreamTypeFile None
         in case startFileStream a ''/tmp/strux-cage.log'' (alloc stream l) of
              (Inl err, l') \<Rightarrow> (Inl err, l')
            | (Inr u, l') \<Rightarrow> (Inr (), register streamID a l')))"

text \<open>The early-boot stream tries journalctl and, when that does not start, puts
  \<open>dmesg -w\<close> into the same stream object and tries again.\<close>

definition StartEarlyLogStream ::
  "env \<Rightarrow> string \<Rightarrow> LogStreamer \<Rightarrow> (error + unit) \<times> LogStreamer" where
  "StartEarlyLogStream e streamID l =
     (if streams l streamID \<noteq> None then (Inl (AlreadyExists streamID), l)
      else
        (let a = length (store l);
             stream = new_stream streamID [] LogStreamTypeCommand
               (Some [''journalctl'', ''-b'', ''-f'', ''--no-pager'', ''-o'',
                      ''short-precise''])
         in case startCommandStream e a (alloc stream l) of
              (Inr u, l') \<Rightarrow> (Inr (), register streamID a l')
            | (Inl err, l') \<Rightarrow>
                (let l'' = l'\<lparr>store := (store l')
                             [a := (store l' ! a)\<lparr>cmd := Some [''dmesg'', ''-w'']\<rparr>]\<rparr>
                 in case startCommandStream e a l'' of
                      (Inl err2, l3) \<Rightarrow> (Inl err2, l3)
                    | (Inr u, l3) \<Rightarrow> (Inr (), register streamID a l3))))"

subsection \<open>cleanupStream, Stop and StopAll\<close>

definition cleanupStream :: "string \<Rightarrow> LogStreamer \<Rightarrow> LogStreamer" where
  "cleanupStream streamID l = l\<lparr>streams := (streams l)(streamID := None)\<rparr>"

text \<open>Lines 579 to 595 of \<open>Stop\<close>, repeated in the loop of \<open>StopAll\<close>.\<close>

definition teardown :: "LogStream \<Rightarrow> LogStream" where
  "teardown s =
     s\<lparr>stopped := True,
       done_ch := Suc (done_ch s),
       process := (if cmd s \<noteq> None \<and> process s \<noteq> None then Some Killed else process s),
       file_h := (if file_h s \<noteq> None then Some Closed else file_h s)\<rparr>"

definition stop_stream :: "addr \<Rightarrow> LogStreamer \<Rightarrow> LogStreamer" where
  "stop_stream a l = l\<lparr>store := (store l)[a := teardown (store l ! a)]\<rparr>"

definition LogStreamer_Stop :: "string \<Rightarrow> LogStreamer \<Rightarrow> LogStreamer" where
  "LogStreamer_Stop streamID l =
     (case streams l streamID of
        None \<Rightarrow> l
      | Some a \<Rightarrow> stop_stream a (l\<lparr>streams := (streams l)(streamID := None)\<rparr>))"

text \<open>
  \<open>StopAll\<close> copies the pointers and the keys under the lock, replaces the map by an
  empty one, and tears the copied streams down. \<open>ids\<close> is the order in which the
  \<open>range\<close> over the map visits the keys.
\<close>

definition LogStreamer_StopAll :: "string list \<Rightarrow> LogStreamer \<Rightarrow> LogStreamer" where
  "LogStreamer_StopAll ids l =
     fold stop_stream (List.map_filter (streams l) ids) (l\<lparr>streams := Map.empty\<rparr>)"

text \<open>
  The worker of a file stream, lines 450 to 467: once the wait for the file is over it
  returns when the stream is stopped, and otherwise opens the file (\<open>opened\<close> tells
  whether \<open>os.Open\<close> succeeds) and stores the handle in the stream.
\<close>

definition fileWorker_open :: "bool \<Rightarrow> addr \<Rightarrow> LogStreamer \<Rightarrow> LogStreamer" where
  "fileWorker_open opened a l =
     (let stream = store l ! a in
      if stopped stream then l
      else if \<not> opened then l
      else l\<lparr>store := (store l)[a := stream\<lparr>file_h := Some Open\<rparr>]\<rparr>)"

section \<open>Predicates and sample states used by the properties\<close>

definition cmd_inv :: "LogStream \<Rightarrow> bool" where
  "cmd_inv s = (process s \<noteq> None \<longrightarrow> cmd s \<noteq> None)"

text \<open>
  An operating system on which only /bin/sh exists and every spawn succeeds, a manager
  with two sessions and a streamer with a journal stream and an application-log stream
  whose file has been opened.
\<close>

definition env_sh_only :: env where
  "env_sh_only =
     \<lparr>fileExists = (\<lambda>p. p = ''/bin/sh''), pty_Start = (\<lambda>p. True),
      cmd_Start = (\<lambda>argv. Started)\<rparr>"

definition two_sessions :: ExecManager where
  "two_sessions =
     snd (ExecManager_Start env_sh_only ''b'' []
       (snd (ExecManager_Start env_sh_only ''a'' [] (NewExecManager True True True))))"

definition two_streams :: LogStreamer where
  "two_streams =
     fileWorker_open True 1
       (snd (StartAppLogStream ''app'' (snd (StartJournalctlStream env_sh_only ''sys'' NewLogStreamer))))"

section \<open>Two concurrent calls of Start\<close>

text \<open>
  A goroutine inside \<open>Start\<close> is at the existence check, between the two critical
  sections, about to register the session it has spawned, or has returned. One step
  of it is one phase of \<open>Start\<close>; the manager's lock makes each phase atomic, and
  nothing else orders the phases of two goroutines.
\<close>

datatype start_pc = AtCheck | AtSpawn | AtRegister addr | Returned "error + unit"

definition Start_step ::
  "env \<Rightarrow> string \<Rightarrow> string \<Rightarrow> start_pc \<Rightarrow> ExecManager \<Rightarrow> start_pc \<times> ExecManager" where
  "Start_step e sessionID shell pc m =
     (case pc of
        AtCheck \<Rightarrow>
          (if Start_check sessionID m then (Returned (Inl (AlreadyExists sessionID)), m)
           else (AtSpawn, m))
      | AtSpawn \<Rightarrow>
          (case Start_spawn e sessionID shell m of
             (Inl err, m') \<Rightarrow> (Returned (Inl err), m')
           | (Inr a, m') \<Rightarrow> (AtRegister a, m'))
      | AtRegister a \<Rightarrow> (Returned (Inr ()), Start_register sessionID a m)
      | Returned r \<Rightarrow> (Returned r, m))"

text \<open>
  Two goroutines calling \<open>Start\<close> with the arguments \<open>c1\<close> and \<open>c2\<close>, under a
  schedule that names, step by step, the goroutine that moves (\<open>True\<close> for the
  second).
\<close>

fun two_Starts ::
  "env \<Rightarrow> string \<times> string \<Rightarrow> string \<times> string \<Rightarrow> bool list \<Rightarrow>
   start_pc \<times> start_pc \<times> ExecManager \<Rightarrow> start_pc \<times> start_pc \<times> ExecManager" where
  "two_Starts e c1 c2 [] s = s"
| "two_Starts e c1 c2 (second # sched) (pc1, pc2, m) =
     (if second
      then (case Start_step e (fst c2) (snd c2) pc2 m of
              (pc2', m') \<Rightarrow> two_Starts e c1 c2 sched (pc1, pc2', m'))
      else (case Start_step e (fst c1) (snd c1) pc1 m of
              (pc1', m') \<Rightarrow> two_Starts e c1 c2 sched (pc1', pc2, m')))"

definition one_session :: ExecManager where
  "one_session = snd (ExecManager_Start env_sh_only ''s'' [] (NewExecManager True True True))"

section \<open>The file tailer\<close>

definition newline :: char where
  "newline = CHR 0x0A"

definition carriage_return :: char where
  "carriage_return = CHR 0x0D"


text \<open>
  \<open>bufio.Reader.ReadString\<close> with the newline as delimiter, on the bytes of the file that lie after the
  reader's position. The package documents it: it reads up to and including the first
  delimiter; when it meets an error first it returns the data read before the error
  together with the error, here \<open>io.EOF\<close> at the end of the file. The result is the
  string, whether the error is \<open>io.EOF\<close>, and the bytes left unread.
\<close>

definition ReadString :: "string \<Rightarrow> string \<times> bool \<times> string" where
  "ReadString inp =
     (if newline \<in> set inp
      then (takeWhile (\<lambda>c. c \<noteq> newline) inp @ [newline], False,
            tl (dropWhile (\<lambda>c. c \<noteq> newline) inp))
      else (inp, True, []))"

text \<open>
  The tailing worker: the file's content, the position of the reader in it, the lines
  passed to \<open>stream.callback\<close> so far, and whether \<open>tailFile\<close> has returned.
  \<open>open_tail\<close> is the state after \<open>os.Open\<close> and \<open>file.Seek(0, io.SeekEnd)\<close> on a
  file with the given content (lines 459 to 473 of \<open>startFileStream\<close>).
\<close>

record tail_state =
  content :: string
  pos :: nat
  delivered :: "string list"
  returned :: bool

definition open_tail :: "string \<Rightarrow> tail_state" where
  "open_tail c = \<lparr>content = c, pos = length c, delivered = [], returned = False\<rparr>"

text \<open>
  What happens to a tailed file: a writer appends bytes, or the worker makes one turn of
  the loop of \<open>tailFile\<close>. A turn carries what the worker observes in it: whether the
  done channel is closed at the \<open>select\<close>, whether the read fails with an error other
  than \<open>io.EOF\<close>, and whether the stopped flag is set when it is read before the
  callback. At \<open>io.EOF\<close> the loop sleeps and goes on; the bytes that \<open>ReadString\<close>
  returned with the error have been consumed and are not looked at.
\<close>

datatype tail_event = Append string | Turn bool bool bool

definition tailFile_turn :: "bool \<Rightarrow> bool \<Rightarrow> bool \<Rightarrow> tail_state \<Rightarrow> tail_state" where
  "tailFile_turn done_closed read_fails stopped_seen st =
     (if returned st then st
      else if done_closed then st\<lparr>returned := True\<rparr>
      else if read_fails then st\<lparr>returned := True\<rparr>
      else
        (case ReadString (drop (pos st) (content st)) of
           (line, eof, rest) \<Rightarrow>
             (let st' = st\<lparr>pos := pos st + length line\<rparr> in
              if eof then st'
              else
                (let line' = (if line \<noteq> [] \<and> last line = newline then butlast line else line)
                 in if line' \<noteq> []
                    then (if stopped_seen then st'\<lparr>returned := True\<rparr>
                          else st'\<lparr>delivered := delivered st' @ [line']\<rparr>)
                    else st'))))"

fun tail_step :: "tail_event \<Rightarrow> tail_state \<Rightarrow> tail_state" where
  "tail_step (Append s) st = st\<lparr>content := content st @ s\<rparr>"
| "tail_step (Turn d f s) st = tailFile_turn d f s st"

definition run_tail :: "tail_event list \<Rightarrow> tail_state \<Rightarrow> tail_state" where
  "run_tail es st = fold tail_step es st"


text \<open>
  Vocabulary for the properties of the tailer: the bytes not yet read, the complete
  lines in a buffer, an appended chunk that is one whole line, the lines that a
  schedule appends, and a schedule in which the writer appends whole lines and the
  stream is not stopped.
\<close>

definition unread :: "tail_state \<Rightarrow> string" where
  "unread st = drop (pos st) (content st)"

function complete_lines :: "string \<Rightarrow> string list" where
  "complete_lines s =
     (if newline \<in> set s
      then takeWhile (\<lambda>c. c \<noteq> newline) s # complete_lines (tl (dropWhile (\<lambda>c. c \<noteq> newline) s))
      else [])"
  by pat_completeness auto
termination
proof (relation "measure length")
  show "wf (measure length)" by simp
next
  fix s :: string
  assume "newline \<in> set s"
  then have "dropWhile (\<lambda>c. c \<noteq> newline) s \<noteq> []" by simp
  then have "length (tl (dropWhile (\<lambda>c. c \<noteq> newline) s)) <
             length (dropWhile (\<lambda>c. c \<noteq> newline) s)"
    by (cases "dropWhile (\<lambda>c. c \<noteq> newline) s") simp_all
  also have "\<dots> \<le> length s" by (rule length_dropWhile_le)
  finally show "(tl (dropWhile (\<lambda>c. c \<noteq> newline) s), s) \<in> measure length" by simp
qed

declare complete_lines.simps [simp del]

definition whole_line :: "string \<Rightarrow> bool" where
  "whole_line s = (s \<noteq> [] \<and> last s = newline \<and> newline \<notin> set (butlast s))"

fun appended :: "tail_event list \<Rightarrow> string list" where
  "appended [] = []"
| "appended (Append s # es) = butlast s # appended es"
| "appended (Turn d f t # es) = appended es"

fun quiet :: "tail_event \<Rightarrow> bool" where
  "quiet (Append s) = whole_line s"
| "quiet (Turn d f t) = (\<not> d \<and> \<not> f \<and> \<not> t)"

definition closed_buf :: "string \<Rightarrow> bool" where
  "closed_buf u = (u = [] \<or> last u = newline)"

definition tail_inv :: "tail_state \<Rightarrow> bool" where
  "tail_inv st = (\<not> returned st \<and> pos st \<le> length (content st) \<and> closed_buf (unread st))"

definition owed :: "tail_state \<Rightarrow> string list" where
  "owed st = delivered st @ filter (\<lambda>l. l \<noteq> []) (complete_lines (unread st))"

section \<open>The pipe reader\<close>

text \<open>
  \<open>readPipe\<close> reads its pipe through a \<open>bufio.Scanner\<close> with the default split
  function \<open>ScanLines\<close> and the buffer limit of line 484. As the package documents,
  a token is a line without its end-of-line marker, which is a newline with an optional
  carriage return before it; the last line of the input is a token even without a
  newline; and \<open>Scan\<close> returns false at the end of the input and when the buffer is
  full without holding a whole line. \<open>Scan data eof\<close> is the outcome on the bytes
  \<open>data\<close> that were written to the pipe and not yet consumed: it may also not have
  returned yet, when no line is complete and the pipe is still open.
\<close>

definition maxTokenSize :: nat where
  "maxTokenSize = 1024 * 1024"

definition dropCR :: "string \<Rightarrow> string" where
  "dropCR data = (if data \<noteq> [] \<and> last data = carriage_return then butlast data else data)"

datatype scan_result = Blocked | ScanFalse | Token string string

definition Scan :: "string \<Rightarrow> bool \<Rightarrow> scan_result" where
  "Scan data eof =
     (let line = takeWhile (\<lambda>c. c \<noteq> newline) data in
      if newline \<in> set data \<and> length line < maxTokenSize
      then Token (dropCR line) (drop (length line + 1) data)
      else if maxTokenSize \<le> length data then ScanFalse
      else if eof then (if data = [] then ScanFalse else Token (dropCR data) [])
      else Blocked)"

text \<open>
  The worker: the bytes in the pipe, whether its write end is closed, whether the
  worker is inside \<open>scanner.Scan()\<close> (after the \<open>select\<close> of line 488), the lines
  passed to \<open>stream.callback\<close>, and whether \<open>readPipe\<close> has returned. A turn of the
  worker carries whether it sees the done channel closed at the \<open>select\<close> and
  whether it sees the stopped flag set before the callback.
\<close>

record pipe_state =
  buffered :: string
  at_eof :: bool
  scanning :: bool
  delivered_p :: "string list"
  returned_p :: bool

definition new_pipe :: pipe_state where
  "new_pipe = \<lparr>buffered = [], at_eof = False, scanning = False, delivered_p = [],
               returned_p = False\<rparr>"

datatype pipe_event = Write string | CloseWrite | PipeTurn bool bool

definition readPipe_turn :: "bool \<Rightarrow> bool \<Rightarrow> pipe_state \<Rightarrow> pipe_state" where
  "readPipe_turn done_closed stopped_seen st =
     (if returned_p st then st
      else if \<not> scanning st
      then (if done_closed then st\<lparr>returned_p := True\<rparr> else st\<lparr>scanning := True\<rparr>)
      else
        (case Scan (buffered st) (at_eof st) of
           Blocked \<Rightarrow> st
         | ScanFalse \<Rightarrow> st\<lparr>scanning := False, returned_p := True\<rparr>
         | Token line rest \<Rightarrow>
             (let st' = st\<lparr>buffered := rest, scanning := False\<rparr> in
              if line \<noteq> []
              then (if stopped_seen then st'\<lparr>returned_p := True\<rparr>
                    else st'\<lparr>delivered_p := delivered_p st' @ [line]\<rparr>)
              else st')))"

fun pipe_step :: "pipe_event \<Rightarrow> pipe_state \<Rightarrow> pipe_state" where
  "pipe_step (Write s) st = (if at_eof st then st else st\<lparr>buffered := buffered st @ s\<rparr>)"
| "pipe_step CloseWrite st = st\<lparr>at_eof := True\<rparr>"
| "pipe_step (PipeTurn d t) st = readPipe_turn d t st"

definition run_pipe :: "pipe_event list \<Rightarrow> pipe_state \<Rightarrow> pipe_state" where
  "run_pipe es st = fold pipe_step es st"

text \<open>What may be passed to a callback.\<close>

definition deliverable :: "string \<Rightarrow> bool" where
  "deliverable line = (line \<noteq> [] \<and> newline \<notin> set line)"

section \<open>The managers under concurrent calls\<close>

text \<open>
  \<open>Stop\<close> deletes the unit from the registry while it holds the manager's lock and
  tears the unit down after releasing it; \<open>StopAll\<close> of the Log Streamer does the
  same with all streams at once. Between the two parts any other call may run. The state
  of a manager under concurrent calls is therefore the manager together with the
  pointers that calls in progress hold in their local variables: \<open>stopping\<close> are the
  units that a \<open>Stop\<close> or \<open>StopAll\<close> has removed and not yet torn down. A transition is
  one critical section, or one stretch of code outside the lock.

  For the Log Streamer the start functions hold the lock from the check to the
  registration, so each is one transition. \<open>natural_exit\<close> is the waiter goroutine of
  \<open>startCommandStream\<close>, which calls \<open>cleanupStream(stream.ID)\<close> once the process has
  ended; \<open>file_open\<close> is the worker of \<open>startFileStream\<close> storing the file it has
  opened. In \<open>stop_all_remove\<close> the list \<open>ids\<close> is the order in which the \<open>range\<close>
  visits the keys of the map.
\<close>

record ls_conc =
  ls :: LogStreamer
  stopping :: "addr list"

definition ls_init :: ls_conc where
  "ls_init = \<lparr>ls = NewLogStreamer, stopping = []\<rparr>"

inductive ls_trans :: "ls_conc \<Rightarrow> ls_conc \<Rightarrow> bool" where
  journalctl:
    "ls_trans s (s\<lparr>ls := snd (StartJournalctlStream e streamID (ls s))\<rparr>)"
| service:
    "ls_trans s (s\<lparr>ls := snd (StartServiceStream e streamID serviceName (ls s))\<rparr>)"
| app_log:
    "ls_trans s (s\<lparr>ls := snd (StartAppLogStream streamID (ls s))\<rparr>)"
| cage_log:
    "ls_trans s (s\<lparr>ls := snd (StartCageLogStream streamID (ls s))\<rparr>)"
| early:
    "ls_trans s (s\<lparr>ls := snd (StartEarlyLogStream e streamID (ls s))\<rparr>)"
| stop_remove:
    "streams (ls s) streamID = Some a \<Longrightarrow>
     ls_trans s (s\<lparr>ls := (ls s)\<lparr>streams := (streams (ls s))(streamID := None)\<rparr>,
                   stopping := a # stopping s\<rparr>)"
| stop_teardown:
    "a \<in> set (stopping s) \<Longrightarrow>
     ls_trans s (s\<lparr>ls := stop_stream a (ls s), stopping := remove1 a (stopping s)\<rparr>)"
| stop_all_remove:
    "distinct ids \<Longrightarrow> set ids = dom (streams (ls s)) \<Longrightarrow>
     ls_trans s (s\<lparr>ls := (ls s)\<lparr>streams := Map.empty\<rparr>,
                   stopping := List.map_filter (streams (ls s)) ids @ stopping s\<rparr>)"
| natural_exit:
    "Waiter a \<in> set (goroutines (ls s)) \<Longrightarrow>
     ls_trans s (s\<lparr>ls := cleanupStream (ID (store (ls s) ! a)) (ls s)\<rparr>)"
| file_open:
    "FileWorker a filePath \<in> set (goroutines (ls s)) \<Longrightarrow>
     ls_trans s (s\<lparr>ls := fileWorker_open opened a (ls s)\<rparr>)"

definition ls_reachable :: "ls_conc \<Rightarrow> bool" where
  "ls_reachable s = ls_trans\<^sup>*\<^sup>* ls_init s"

text \<open>
  What holds in every reachable state: a registered stream exists, is not being stopped
  and has an open done channel; no stream is registered under two identifiers; no
  stream is held by two stopping calls, and a stream that is being stopped still has an
  open done channel; no done channel has been closed twice.
\<close>

definition ls_inv :: "ls_conc \<Rightarrow> bool" where
  "ls_inv s =
     ((\<forall>streamID a. streams (ls s) streamID = Some a \<longrightarrow>
          a < length (store (ls s)) \<and> a \<notin> set (stopping s) \<and> done_ch (store (ls s) ! a) = 0)
      \<and> (\<forall>streamID streamID' a.
            streams (ls s) streamID = Some a \<and> streams (ls s) streamID' = Some a \<longrightarrow>
            streamID = streamID')
      \<and> distinct (stopping s)
      \<and> (\<forall>a\<in>set (stopping s). a < length (store (ls s)) \<and> done_ch (store (ls s) ! a) = 0)
      \<and> (\<forall>a<length (store (ls s)). done_ch (store (ls s) ! a) \<le> 1 \<and> cmd_inv (store (ls s) ! a)))"

text \<open>What a start function may do to the streamer.\<close>

definition start_effect :: "string \<Rightarrow> LogStreamer \<Rightarrow> LogStreamer \<Rightarrow> bool" where
  "start_effect streamID l l' =
     (l' = l \<or>
      (\<exists>x. store l' = store l @ [x] \<and> done_ch x = 0 \<and> cmd_inv x \<and>
           (streams l' = streams l \<or>
            (streams l streamID = None \<and> streams l' = (streams l)(streamID \<mapsto> length (store l))))))"

text \<open>
  The Exec Manager. \<open>Start\<close> releases the lock between its check and its registration,
  so \<open>starting_e\<close> holds the sessions that a call has spawned and not yet registered.
  The check itself changes nothing, and its answer may be out of date when the call
  goes on, so the spawn is possible in every state. \<open>exit_callback\<close> and \<open>read\<close> are
  the callbacks of the wait loop and of the read loop; the \<open>Stop\<close> that ends
  \<open>waitLoop\<close> is a \<open>stop_remove\<close> followed by a \<open>stop_teardown\<close>.
\<close>

record em_conc =
  em :: ExecManager
  starting_e :: "(string \<times> addr) list"
  stopping_e :: "addr list"

definition em_init :: "bool \<Rightarrow> bool \<Rightarrow> bool \<Rightarrow> em_conc" where
  "em_init out ex er = \<lparr>em = NewExecManager out ex er, starting_e = [], stopping_e = []\<rparr>"

inductive em_trans :: "em_conc \<Rightarrow> em_conc \<Rightarrow> bool" where
  spawn:
    "Start_spawn e sessionID shell (em s) = (Inr a, m') \<Longrightarrow>
     em_trans s (s\<lparr>em := m', starting_e := (sessionID, a) # starting_e s\<rparr>)"
| register:
    "(sessionID, a) \<in> set (starting_e s) \<Longrightarrow>
     em_trans s (s\<lparr>em := Start_register sessionID a (em s),
                   starting_e := remove1 (sessionID, a) (starting_e s)\<rparr>)"
| stop_remove:
    "sessions (em s) sessionID = Some a \<Longrightarrow>
     em_trans s (s\<lparr>em := (em s)\<lparr>sessions := (sessions (em s))(sessionID := None)\<rparr>,
                   stopping_e := a # stopping_e s\<rparr>)"
| stop_teardown:
    "a \<in> set (stopping_e s) \<Longrightarrow>
     em_trans s (s\<lparr>em := (em s)\<lparr>store_e := (store_e (em s))
                                    [a := teardown_e (store_e (em s) ! a)]\<rparr>,
                   stopping_e := remove1 a (stopping_e s)\<rparr>)"
| exit_callback:
    "WaitLoop a \<in> set (goroutines_e (em s)) \<Longrightarrow>
     em_trans s (s\<lparr>em := (if onExit (em s)
                          then (em s)\<lparr>invoked := invoked (em s) @
                                  [Exit (id_e (store_e (em s) ! a)) (exitCode err)]\<rparr>
                          else em s)\<rparr>)"
| read:
    "ReadLoop a \<in> set (goroutines_e (em s)) \<Longrightarrow>
     em_trans s (s\<lparr>em := snd (readLoop_read a r (em s))\<rparr>)"

definition em_reachable :: "em_conc \<Rightarrow> bool" where
  "em_reachable s = (\<exists>out ex er. em_trans\<^sup>*\<^sup>* (em_init out ex er) s)"

definition em_inv :: "em_conc \<Rightarrow> bool" where
  "em_inv s =
     ((\<forall>sessionID a. sessions (em s) sessionID = Some a \<longrightarrow>
          a < length (store_e (em s)) \<and> a \<notin> set (stopping_e s)
          \<and> a \<notin> snd ` set (starting_e s) \<and> done_e (store_e (em s) ! a) = 0)
      \<and> (\<forall>sessionID sessionID' a.
            sessions (em s) sessionID = Some a \<and> sessions (em s) sessionID' = Some a \<longrightarrow>
            sessionID = sessionID')
      \<and> distinct (stopping_e s)
      \<and> (\<forall>a\<in>set (stopping_e s). a < length (store_e (em s))
            \<and> a \<notin> snd ` set (starting_e s) \<and> done_e (store_e (em s) ! a) = 0)
      \<and> distinct (map snd (starting_e s))
      \<and> (\<forall>a\<in>snd ` set (starting_e s). a < length (store_e (em s))
            \<and> done_e (store_e (em s) ! a) = 0)
      \<and> (\<forall>a<length (store_e (em s)). done_e (store_e (em s) ! a) \<le> 1))"

text \<open>
  Sample states: a journal stream whose process has ended by itself, the same stream
  after \<open>Stop\<close>, a stopped session, and a streamer in which \<open>Stop\<close> has removed the
  journal stream and not yet torn it down.
\<close>

definition exited_stream :: ls_conc where
  "exited_stream =
     \<lparr>ls = cleanupStream ''sys'' (snd (StartJournalctlStream env_sh_only ''sys'' NewLogStreamer)),
      stopping = []\<rparr>"

definition stopped_stream :: ls_conc where
  "stopped_stream =
     \<lparr>ls = LogStreamer_Stop ''sys'' (snd (StartJournalctlStream env_sh_only ''sys'' NewLogStreamer)),
      stopping = []\<rparr>"

definition stopped_session :: em_conc where
  "stopped_session =
     \<lparr>em = ExecManager_Stop ''s'' one_session, starting_e = [], stopping_e = []\<rparr>"

definition stopping_stream :: ls_conc where
  "stopping_stream =
     \<lparr>ls = two_streams\<lparr>streams := (streams two_streams)(''sys'' := None)\<rparr>, stopping = [0]\<rparr>"

text \<open>
  A session is live (done channel open, process running, pty open) or torn down (done
  channel closed, process killed, pty closed): \<open>Start\<close> creates it live, and the
  teardown of \<open>Stop\<close> is the only code that writes to it afterwards.
\<close>

definition live_or_torn :: "ExecSession \<Rightarrow> bool" where
  "live_or_torn x =
     ((done_e x = 0 \<and> process_e x = Some Running \<and> pty_e x = Some Open)
      \<or> (done_e x = 1 \<and> process_e x = Some Killed \<and> pty_e x = Some Closed))"

text \<open>
  The journal stream \<open>sys\<close> is started, stopped, and started again before the waiter
  of the first stream has finished its pause of 100 ms; that waiter then runs
  \<open>cleanupStream\<close> with the identifier that the two streams share.
\<close>

definition restarted_stream :: LogStreamer where
  "restarted_stream =
     snd (StartJournalctlStream env_sh_only ''sys''
       (LogStreamer_Stop ''sys'' (snd (StartJournalctlStream env_sh_only ''sys'' NewLogStreamer))))"

definition forgotten_stream :: LogStreamer where
  "forgotten_stream = cleanupStream (ID (store restarted_stream ! 0)) restarted_stream"

text \<open>
  Two calls of \<open>Start\<close> with the identifier \<open>x\<close>, interleaved so that both pass the
  existence check before either registers.
\<close>

definition overwritten_session :: ExecManager where
  "overwritten_session =
     snd (snd (two_Starts env_sh_only (''x'', []) (''x'', [])
       [False, True, False, False, True, True]
       (AtCheck, AtCheck, NewExecManager True True True)))"

text \<open>
  An operating system on which \<open>/opt/strux/shell\<close> exists and cannot be executed:
  \<open>fileExists\<close> reports it and \<open>pty.Start\<close> fails on it.
\<close>

definition env_noexec :: env where
  "env_noexec =
     \<lparr>fileExists = (\<lambda>p. p = ''/opt/strux/shell'' \<or> p = ''/bin/bash'' \<or> p = ''/bin/sh''),
      pty_Start = (\<lambda>p. p \<noteq> ''/opt/strux/shell''),
      cmd_Start = (\<lambda>argv. Started)\<rparr>"

section \<open>Facts about Stop and the start functions\<close>

lemma Stop_e_length: "length (store_e (ExecManager_Stop sid m)) = length (store_e m)"
  by (simp add: ExecManager_Stop_def split: option.splits)

lemma Stop_e_sessions:
  "sessions (ExecManager_Stop sid m) = (sessions m)(sid := None)"
  by (auto simp add: ExecManager_Stop_def split: option.splits)

lemma fold_Stop_e_length:
  "length (store_e (fold ExecManager_Stop ids m)) = length (store_e m)"
  by (induction ids arbitrary: m) (simp_all add: Stop_e_length)

lemma fold_Stop_e_sessions:
  "sessions (fold ExecManager_Stop ids m) sid = (if sid \<in> set ids then None else sessions m sid)"
  by (induction ids arbitrary: m) (simp_all add: Stop_e_sessions)

lemma stop_stream_length: "length (store (stop_stream a l)) = length (store l)"
  by (simp add: stop_stream_def)

lemma stop_stream_streams: "streams (stop_stream a l) = streams l"
  by (simp add: stop_stream_def)

lemma fold_stop_stream_length: "length (store (fold stop_stream as l)) = length (store l)"
  by (induction as arbitrary: l) (simp_all add: stop_stream_length)

lemma fold_stop_stream_streams: "streams (fold stop_stream as l) = streams l"
  by (induction as arbitrary: l) (simp_all add: stop_stream_streams)

lemma in_map_filter:
  "x \<in> set xs \<Longrightarrow> f x = Some a \<Longrightarrow> a \<in> set (List.map_filter f xs)"
  by (induction xs) (auto split: option.splits)

lemma StopAll_streams: "streams (LogStreamer_StopAll ids l) = Map.empty"
  by (simp add: LogStreamer_StopAll_def fold_stop_stream_streams)

lemma StopAll_e_sessions:
  "dom (sessions m) \<subseteq> set ids \<Longrightarrow> sessions (ExecManager_StopAll ids m) = Map.empty"
  by (rule ext) (auto simp add: ExecManager_StopAll_def fold_Stop_e_sessions)

lemma Start_e_fresh:
  "sessions m sid = None \<Longrightarrow>
   fst (ExecManager_Start e sid shell m) =
     (if pty_Start e (shellPath (fileExists e) shell) then Inr () else Inl PtyStartFailed)"
  by (simp add: ExecManager_Start_def Start_check_def Start_spawn_def Let_def)

lemma startCommandStream_alloc:
  "startCommandStream e (length (store l)) (alloc (new_stream sid svc t (Some argv)) l) =
     (case cmd_Start e argv of
        StdoutPipeError \<Rightarrow> (Inl StdoutPipeFailed, alloc (new_stream sid svc t (Some argv)) l)
      | StderrPipeError \<Rightarrow> (Inl StderrPipeFailed, alloc (new_stream sid svc t (Some argv)) l)
      | StartError \<Rightarrow> (Inl CommandStartFailed, alloc (new_stream sid svc t (Some argv)) l)
      | Started \<Rightarrow>
          (Inr (),
           l\<lparr>store := store l @ [(new_stream sid svc t (Some argv))\<lparr>process := Some Running\<rparr>],
             goroutines := goroutines l @
               [ReadPipe (length (store l)) Stdout, ReadPipe (length (store l)) Stderr,
                Waiter (length (store l))]\<rparr>))"
  by (simp add: startCommandStream_def alloc_def new_stream_def Let_def split: spawn_result.splits)

lemma StartJournalctl_fresh:
  "streams l sid = None \<Longrightarrow>
   fst (StartJournalctlStream e sid l) \<noteq> Inl (AlreadyExists sid) \<and>
   (cmd_Start e [''journalctl'', ''-f'', ''--no-pager'', ''-o'', ''short-precise''] = Started
      \<longrightarrow> fst (StartJournalctlStream e sid l) = Inr ())"
  by (simp add: StartJournalctlStream_def startCommandStream_alloc Let_def
      split: spawn_result.splits)

lemma StartService_fresh:
  "streams l sid = None \<Longrightarrow>
   fst (StartServiceStream e sid svc l) \<noteq> Inl (AlreadyExists sid) \<and>
   (cmd_Start e [''journalctl'', ''-f'', ''--no-pager'', ''-u'', svc, ''-o'', ''short-precise'']
      = Started \<longrightarrow> fst (StartServiceStream e sid svc l) = Inr ())"
  by (simp add: StartServiceStream_def startCommandStream_alloc Let_def
      split: spawn_result.splits)

lemma StartAppLog_fresh:
  "streams l sid = None \<Longrightarrow> fst (StartAppLogStream sid l) = Inr ()"
  by (simp add: StartAppLogStream_def startFileStream_def Let_def)

lemma StartCageLog_fresh:
  "streams l sid = None \<Longrightarrow> fst (StartCageLogStream sid l) = Inr ()"
  by (simp add: StartCageLogStream_def startFileStream_def Let_def)

lemma StartEarly_fresh:
  "streams l sid = None \<Longrightarrow>
   fst (StartEarlyLogStream e sid l) \<noteq> Inl (AlreadyExists sid) \<and>
   (cmd_Start e [''journalctl'', ''-b'', ''-f'', ''--no-pager'', ''-o'', ''short-precise'']
      = Started \<or> cmd_Start e [''dmesg'', ''-w''] = Started
      \<longrightarrow> fst (StartEarlyLogStream e sid l) = Inr ())"
  by (auto simp add: StartEarlyLogStream_def startCommandStream_alloc Let_def
      startCommandStream_def alloc_def new_stream_def
      split: spawn_result.splits)

lemma two_sessions_eq:
  "two_sessions =
     \<lparr>sessions = [''a'' \<mapsto> 0, ''b'' \<mapsto> 1],
      store_e = [\<lparr>id_e = ''a'', cmd_e = ''/bin/sh'', process_e = Some Running,
                  pty_e = Some Open, done_e = 0\<rparr>,
                 \<lparr>id_e = ''b'', cmd_e = ''/bin/sh'', process_e = Some Running,
                  pty_e = Some Open, done_e = 0\<rparr>],
      goroutines_e = [ReadLoop 0, WaitLoop 0, ReadLoop 1, WaitLoop 1],
      onOutput = True, onExit = True, onError = True, invoked = []\<rparr>"
  by (simp add: two_sessions_def ExecManager_Start_def Start_check_def Start_spawn_def
      Start_register_def shellPath_def env_sh_only_def NewExecManager_def Let_def)

lemma two_streams_eq:
  "two_streams =
     \<lparr>streams = [''sys'' \<mapsto> 0, ''app'' \<mapsto> 1],
      store = [\<lparr>ID = ''sys'', Service = [], StreamType = LogStreamTypeCommand,
                cmd = Some [''journalctl'', ''-f'', ''--no-pager'', ''-o'', ''short-precise''],
                process = Some Running, file_h = None, done_ch = 0, stopped = False\<rparr>,
               \<lparr>ID = ''app'', Service = [], StreamType = LogStreamTypeFile,
                cmd = None, process = None, file_h = Some Open, done_ch = 0,
                stopped = False\<rparr>],
      goroutines = [ReadPipe 0 Stdout, ReadPipe 0 Stderr, Waiter 0,
                    FileWorker 1 ''/tmp/strux-backend.log'']\<rparr>"
  by (simp add: two_streams_def StartAppLogStream_def StartJournalctlStream_def
      startCommandStream_def startFileStream_def alloc_def register_def new_stream_def
      fileWorker_open_def env_sh_only_def NewLogStreamer_def Let_def)

section \<open>Duplicate identifiers\<close>

text \<open>
  C5. In every manager state in which the identifier is registered, \<open>Start\<close> of the
  Exec Manager and each of the five start functions of the Log Streamer return the
  already-exists error together with the state they were given: the registry, the
  store of units (no process is spawned), the list of launched workers and the callback
  history are all unchanged.
\<close>

theorem duplicate_start_rejected:
  "(sessions m sessionID \<noteq> None \<longrightarrow>
      ExecManager_Start e sessionID shell m = (Inl (AlreadyExists sessionID), m))
   \<and> (streams l streamID \<noteq> None \<longrightarrow>
        StartJournalctlStream e streamID l = (Inl (AlreadyExists streamID), l)
        \<and> StartServiceStream e streamID serviceName l = (Inl (AlreadyExists streamID), l)
        \<and> StartAppLogStream streamID l = (Inl (AlreadyExists streamID), l)
        \<and> StartCageLogStream streamID l = (Inl (AlreadyExists streamID), l)
        \<and> StartEarlyLogStream e streamID l = (Inl (AlreadyExists streamID), l))"
  by (simp add: ExecManager_Start_def Start_check_def StartJournalctlStream_def
      StartServiceStream_def StartAppLogStream_def StartCageLogStream_def
      StartEarlyLogStream_def)

theorem duplicate_start_rejected_witness:
  "sessions two_sessions ''a'' \<noteq> None
   \<and> ExecManager_Start env_sh_only ''a'' ''/bin/zsh'' two_sessions =
       (Inl (AlreadyExists ''a''), two_sessions)
   \<and> streams two_streams ''sys'' \<noteq> None
   \<and> StartJournalctlStream env_sh_only ''sys'' two_streams =
       (Inl (AlreadyExists ''sys''), two_streams)
   \<and> StartAppLogStream ''sys'' two_streams = (Inl (AlreadyExists ''sys''), two_streams)"
proof -
  have h1: "sessions two_sessions ''a'' \<noteq> None" by (simp add: two_sessions_eq)
  have h2: "streams two_streams ''sys'' \<noteq> None" by (simp add: two_streams_eq)
  show ?thesis
    using h1 h2
      duplicate_start_rejected [where m = two_sessions and sessionID = "''a''"
        and e = env_sh_only and shell = "''/bin/zsh''" and l = two_streams
        and streamID = "''sys''"]
    by blast
qed

section \<open>Stop is idempotent\<close>

text \<open>
  C8. \<open>Stop\<close> of an identifier that is not registered returns the manager state
  unchanged, and two calls of \<open>Stop\<close> in a row leave the same state as one, for both
  managers.
\<close>

theorem stop_idempotent:
  "(sessions m sessionID = None \<longrightarrow> ExecManager_Stop sessionID m = m)
   \<and> ExecManager_Stop sessionID (ExecManager_Stop sessionID m) = ExecManager_Stop sessionID m
   \<and> (streams l streamID = None \<longrightarrow> LogStreamer_Stop streamID l = l)
   \<and> LogStreamer_Stop streamID (LogStreamer_Stop streamID l) = LogStreamer_Stop streamID l"
  by (simp add: ExecManager_Stop_def LogStreamer_Stop_def stop_stream_def split: option.splits)

theorem stop_idempotent_witness:
  "sessions two_sessions ''c'' = None \<and> ExecManager_Stop ''c'' two_sessions = two_sessions
   \<and> ExecManager_Stop ''a'' (ExecManager_Stop ''a'' two_sessions) =
       ExecManager_Stop ''a'' two_sessions
   \<and> sessions (ExecManager_Stop ''a'' two_sessions) = [''b'' \<mapsto> 1]
   \<and> streams two_streams ''c'' = None \<and> LogStreamer_Stop ''c'' two_streams = two_streams
   \<and> LogStreamer_Stop ''app'' (LogStreamer_Stop ''app'' two_streams) =
       LogStreamer_Stop ''app'' two_streams"
proof -
  have h1: "sessions two_sessions ''c'' = None" by (simp add: two_sessions_eq)
  have h2: "streams two_streams ''c'' = None" by (simp add: two_streams_eq)
  have h3: "sessions (ExecManager_Stop ''a'' two_sessions) = [''b'' \<mapsto> 1]"
    by (rule ext) (simp add: two_sessions_eq ExecManager_Stop_def)
  show ?thesis
    using h1 h2 h3
      stop_idempotent [where m = two_sessions and sessionID = "''c''" and l = two_streams
        and streamID = "''c''"]
      stop_idempotent [where m = two_sessions and sessionID = "''a''" and l = two_streams
        and streamID = "''app''"]
    by blast
qed

section \<open>The wait loop\<close>

text \<open>
  C1 as stated gives exit code 1 to a process killed by a signal. \<open>Wait\<close> reports
  such a process through an \<open>*exec.ExitError\<close>, so the first branch of \<open>waitLoop\<close>
  applies and the callback receives \<open>ExitCode()\<close>, which is \<open>-1\<close>.
\<close>

theorem waitLoop_signal_counterexample:
  "invoked (waitLoop 0 (cmd_Wait (Signaled 9)) two_sessions) = [Exit ''a'' (- 1)]"
  by (simp add: waitLoop_def cmd_Wait_def exitCode_def two_sessions_eq ExecManager_Stop_def
      Let_def)

section \<open>Concurrent starts with one identifier\<close>

text \<open>Three steps of one goroutine, with nothing in between, are \<open>Start\<close>.\<close>

lemma Start_is_three_steps:
  "two_Starts e (sessionID, shell) c2 [False, False, False] (AtCheck, pc2, m) =
     (Returned (fst (ExecManager_Start e sessionID shell m)), pc2,
      snd (ExecManager_Start e sessionID shell m))"
proof (cases "Start_check sessionID m")
  case True
  then show ?thesis by (simp add: Start_step_def ExecManager_Start_def)
next
  case False
  obtain r m' where sp: "Start_spawn e sessionID shell m = (r, m')"
    by (cases "Start_spawn e sessionID shell m")
  show ?thesis
    using False sp by (cases r) (simp_all add: Start_step_def ExecManager_Start_def)
qed

text \<open>
  C4 fails on the Exec Manager. Two goroutines start a session \<open>x\<close> on a new manager;
  both run the existence check before either registers. Both calls return \<open>nil\<close>;
  two shells run, the registry points to the second session, and the first is out of
  reach of \<open>Stop\<close>.
\<close>

theorem concurrent_Start_both_succeed:
  "two_Starts env_sh_only (''x'', []) (''x'', []) [False, True, False, False, True, True]
     (AtCheck, AtCheck, NewExecManager True True True) =
   (Returned (Inr ()), Returned (Inr ()),
    \<lparr>sessions = [''x'' \<mapsto> 1],
     store_e = [\<lparr>id_e = ''x'', cmd_e = ''/bin/sh'', process_e = Some Running,
                 pty_e = Some Open, done_e = 0\<rparr>,
                \<lparr>id_e = ''x'', cmd_e = ''/bin/sh'', process_e = Some Running,
                 pty_e = Some Open, done_e = 0\<rparr>],
     goroutines_e = [ReadLoop 0, WaitLoop 0, ReadLoop 1, WaitLoop 1],
     onOutput = True, onExit = True, onError = True, invoked = []\<rparr>)"
  by (simp add: Start_step_def Start_check_def Start_spawn_def Start_register_def
      shellPath_def env_sh_only_def NewExecManager_def Let_def)

section \<open>Callbacks after Stop\<close>

text \<open>
  C3 fails on the Exec Manager. The read loop of session \<open>s\<close> passes its \<open>select\<close>
  and blocks in \<open>pty.Read\<close>. \<open>Stop\<close> runs to its end and invokes no callback. It has
  closed the pseudo-terminal and killed the shell, so the read returns an error and
  \<open>Wait\<close> returns: the read loop then invokes the error callback and the wait loop the
  exit callback, both for \<open>s\<close> and both after \<open>Stop\<close> has returned.
\<close>

theorem callbacks_after_Stop:
  "\<not> readLoop_select 0 one_session
   \<and> invoked (ExecManager_Stop ''s'' one_session) = []
   \<and> invoked (snd (readLoop_read 0 ReadError (ExecManager_Stop ''s'' one_session))) =
       [Error ''s'']
   \<and> invoked (waitLoop 0 (cmd_Wait (Signaled 9))
               (snd (readLoop_read 0 ReadError (ExecManager_Stop ''s'' one_session)))) =
       [Error ''s'', Exit ''s'' (- 1)]"
  by (simp add: one_session_def ExecManager_Start_def Start_check_def Start_spawn_def
      Start_register_def shellPath_def env_sh_only_def NewExecManager_def Let_def
      readLoop_select_def readLoop_read_def ExecManager_Stop_def waitLoop_def cmd_Wait_def
      exitCode_def teardown_e_def)

section \<open>File tailing delivers the appended lines\<close>

lemma closed_buf_rest:
  assumes "closed_buf u" and "newline \<in> set u"
  shows "closed_buf (tl (dropWhile (\<lambda>c. c \<noteq> newline) u))"
proof -
  from assms(2) obtain r where d: "dropWhile (\<lambda>c. c \<noteq> newline) u = newline # r"
    by (metis (mono_tags, lifting) dropWhile_eq_Nil_conv hd_dropWhile list.collapse)
  have "u = takeWhile (\<lambda>c. c \<noteq> newline) u @ newline # r"
    using d by (metis takeWhile_dropWhile_id)
  then have "r \<noteq> [] \<Longrightarrow> last r = last u"
    by (metis last_appendR last_ConsR list.distinct(1))
  moreover from assms have "last u = newline" by (auto simp add: closed_buf_def)
  ultimately show ?thesis by (auto simp add: closed_buf_def d)
qed

lemma closed_buf_no_newline: "closed_buf u \<Longrightarrow> newline \<notin> set u \<Longrightarrow> u = []"
  by (metis closed_buf_def last_in_set)

lemma complete_lines_append:
  "closed_buf u \<Longrightarrow> complete_lines (u @ v) = complete_lines u @ complete_lines v"
proof (induction u rule: complete_lines.induct)
  case (1 s)
  show ?case
  proof (cases "newline \<in> set s")
    case True
    then have dn: "dropWhile (\<lambda>c. c \<noteq> newline) s \<noteq> []" by simp
    have t: "takeWhile (\<lambda>c. c \<noteq> newline) (s @ v) = takeWhile (\<lambda>c. c \<noteq> newline) s"
      using True by (simp add: takeWhile_append1)
    have d: "tl (dropWhile (\<lambda>c. c \<noteq> newline) (s @ v)) =
             tl (dropWhile (\<lambda>c. c \<noteq> newline) s) @ v"
      using True dn by (simp add: dropWhile_append1)
    have ih: "complete_lines (tl (dropWhile (\<lambda>c. c \<noteq> newline) s) @ v) =
              complete_lines (tl (dropWhile (\<lambda>c. c \<noteq> newline) s)) @ complete_lines v"
      using "1.IH" [OF True] closed_buf_rest [OF "1.prems" True] by simp
    have "complete_lines (s @ v) =
          takeWhile (\<lambda>c. c \<noteq> newline) s # complete_lines (tl (dropWhile (\<lambda>c. c \<noteq> newline) s) @ v)"
      using True by (subst complete_lines.simps) (simp add: t d)
    also have "\<dots> = complete_lines s @ complete_lines v"
      using True ih by (subst (2) complete_lines.simps) simp
    finally show ?thesis .
  next
    case False
    with "1.prems" have "s = []" by (rule closed_buf_no_newline)
    then show ?thesis by (simp add: complete_lines.simps [of "[]"])
  qed
qed

lemma whole_lineE:
  assumes "whole_line s"
  obtains b where "s = b @ [newline]" and "newline \<notin> set b" and "butlast s = b"
proof -
  from assms have "s = butlast s @ [newline]"
    by (metis append_butlast_last_id whole_line_def)
  moreover from assms have "newline \<notin> set (butlast s)" by (simp add: whole_line_def)
  ultimately show thesis using that by blast
qed

lemma complete_lines_whole:
  assumes "whole_line s"
  shows "complete_lines s = [butlast s]"
proof -
  from assms obtain b where s: "s = b @ [newline]" and n: "newline \<notin> set b"
    and b: "butlast s = b" by (rule whole_lineE)
  have t: "takeWhile (\<lambda>c. c \<noteq> newline) (b @ [newline]) = b"
    using n by (subst takeWhile_append2) auto
  have d: "dropWhile (\<lambda>c. c \<noteq> newline) (b @ [newline]) = [newline]"
    using n by (subst dropWhile_append2) auto
  have "complete_lines (b @ [newline]) = [b]"
    by (subst complete_lines.simps) (simp add: t d complete_lines.simps [of "[]"])
  then show ?thesis using s b by simp
qed

lemma tailFile_turn_line:
  assumes "\<not> returned st" and "newline \<in> set (unread st)"
  shows "tailFile_turn False False t st =
     (let l = takeWhile (\<lambda>c. c \<noteq> newline) (unread st);
          st' = st\<lparr>pos := pos st + (length l + 1)\<rparr>
      in if l \<noteq> []
         then (if t then st'\<lparr>returned := True\<rparr> else st'\<lparr>delivered := delivered st @ [l]\<rparr>)
         else st')"
  using assms by (simp add: tailFile_turn_def ReadString_def unread_def Let_def)

lemma tailFile_turn_eof:
  assumes "\<not> returned st" and "newline \<notin> set (unread st)"
  shows "tailFile_turn False False t st = st\<lparr>pos := pos st + length (unread st)\<rparr>"
  using assms by (simp add: tailFile_turn_def ReadString_def unread_def Let_def)

lemma unread_after_line:
  "drop (pos st + (length (takeWhile (\<lambda>c. c \<noteq> newline) (unread st)) + 1)) (content st) =
   tl (dropWhile (\<lambda>c. c \<noteq> newline) (unread st))"
proof -
  let ?k = "length (takeWhile (\<lambda>c. c \<noteq> newline) (unread st))"
  have "drop (pos st + (?k + 1)) (content st) = drop (Suc ?k) (unread st)"
    by (simp add: unread_def add.commute)
  also have "\<dots> = tl (drop ?k (unread st))"
    by (simp add: drop_Suc tl_drop)
  also have "\<dots> = tl (dropWhile (\<lambda>c. c \<noteq> newline) (unread st))"
    by (simp add: dropWhile_eq_drop)
  finally show ?thesis .
qed

lemma pos_after_line:
  assumes "pos st \<le> length (content st)" and "newline \<in> set (unread st)"
  shows "pos st + (length (takeWhile (\<lambda>c. c \<noteq> newline) (unread st)) + 1) \<le> length (content st)"
proof -
  have "length (takeWhile (\<lambda>c. c \<noteq> newline) (unread st)) +
          length (dropWhile (\<lambda>c. c \<noteq> newline) (unread st)) = length (unread st)"
    by (metis length_append takeWhile_dropWhile_id)
  moreover have "dropWhile (\<lambda>c. c \<noteq> newline) (unread st) \<noteq> []"
    using assms(2) by simp
  ultimately have "length (takeWhile (\<lambda>c. c \<noteq> newline) (unread st)) < length (unread st)"
    by (cases "dropWhile (\<lambda>c. c \<noteq> newline) (unread st)") simp_all
  moreover have "length (unread st) = length (content st) - pos st"
    by (simp add: unread_def)
  ultimately show ?thesis using assms(1) by simp
qed

lemma unread_update:
  "unread (st\<lparr>pos := p\<rparr>) = drop p (content st)"
  "unread (st\<lparr>pos := p, delivered := d\<rparr>) = drop p (content st)"
  by (simp_all add: unread_def)

lemma turn_line_effect:
  assumes "\<not> returned st" and "pos st \<le> length (content st)"
    and "newline \<in> set (unread st)"
  shows "unread (tailFile_turn False False False st) =
           tl (dropWhile (\<lambda>c. c \<noteq> newline) (unread st))"
    and "delivered (tailFile_turn False False False st) =
           delivered st @ filter (\<lambda>l. l \<noteq> []) [takeWhile (\<lambda>c. c \<noteq> newline) (unread st)]"
    and "\<not> returned (tailFile_turn False False False st)"
    and "pos (tailFile_turn False False False st) \<le> length (content (tailFile_turn False False False st))"
proof -
  let ?l = "takeWhile (\<lambda>c. c \<noteq> newline) (unread st)"
  let ?p = "pos st + (length ?l + 1)"
  have eq: "tailFile_turn False False False st =
              (if ?l \<noteq> [] then st\<lparr>pos := ?p, delivered := delivered st @ [?l]\<rparr>
               else st\<lparr>pos := ?p\<rparr>)"
    using tailFile_turn_line [OF assms(1,3), of False] by (simp add: Let_def)
  have u: "drop ?p (content st) = tl (dropWhile (\<lambda>c. c \<noteq> newline) (unread st))"
    by (rule unread_after_line)
  have p: "?p \<le> length (content st)" using assms(2,3) by (rule pos_after_line)
  show "unread (tailFile_turn False False False st) =
           tl (dropWhile (\<lambda>c. c \<noteq> newline) (unread st))"
  proof -
    have "unread (tailFile_turn False False False st) = drop ?p (content st)"
      by (simp add: eq unread_update)
    with u show ?thesis by simp
  qed
  show "delivered (tailFile_turn False False False st) = delivered st @ filter (\<lambda>l. l \<noteq> []) [?l]"
    unfolding eq by simp
  show "\<not> returned (tailFile_turn False False False st)"
    unfolding eq using assms(1) by simp
  show "pos (tailFile_turn False False False st) \<le> length (content (tailFile_turn False False False st))"
    unfolding eq using p by simp
qed

lemma turn_keeps:
  assumes "tail_inv st"
  shows "tail_inv (tailFile_turn False False False st)
         \<and> owed (tailFile_turn False False False st) = owed st"
proof (cases "newline \<in> set (unread st)")
  case True
  let ?l = "takeWhile (\<lambda>c. c \<noteq> newline) (unread st)"
  let ?r = "tl (dropWhile (\<lambda>c. c \<noteq> newline) (unread st))"
  from assms have nr: "\<not> returned st" and le: "pos st \<le> length (content st)"
    and cb: "closed_buf (unread st)" by (simp_all add: tail_inv_def)
  have cl: "complete_lines (unread st) = ?l # complete_lines ?r"
    using True by (subst complete_lines.simps) simp
  note eff = turn_line_effect [OF nr le True]
  have "tail_inv (tailFile_turn False False False st)"
    unfolding tail_inv_def using eff closed_buf_rest [OF cb True] by simp
  moreover have "owed (tailFile_turn False False False st) = owed st"
    unfolding owed_def eff(1,2) cl by simp
  ultimately show ?thesis by simp
next
  case False
  from assms have nr: "\<not> returned st" and le: "pos st \<le> length (content st)"
    and cb: "closed_buf (unread st)" by (simp_all add: tail_inv_def)
  have e: "unread st = []" using cb False by (rule closed_buf_no_newline)
  have "tailFile_turn False False False st = st"
    using tailFile_turn_eof [OF nr False, of False] by (simp add: e)
  then show ?thesis using assms by simp
qed

lemma append_keeps:
  assumes "tail_inv st" and "whole_line s"
  shows "tail_inv (st\<lparr>content := content st @ s\<rparr>)
         \<and> owed (st\<lparr>content := content st @ s\<rparr>) = owed st @ filter (\<lambda>l. l \<noteq> []) [butlast s]"
proof -
  from assms(1) have nr: "\<not> returned st" and le: "pos st \<le> length (content st)"
    and cb: "closed_buf (unread st)" by (simp_all add: tail_inv_def)
  have u: "unread (st\<lparr>content := content st @ s\<rparr>) = unread st @ s"
    using le by (simp add: unread_def)
  have c: "closed_buf (unread st @ s)"
    using assms(2) by (simp add: closed_buf_def whole_line_def)
  show ?thesis
    using nr le c
    by (simp add: tail_inv_def owed_def u complete_lines_append [OF cb]
        complete_lines_whole [OF assms(2)])
qed

lemma run_keeps:
  assumes "\<forall>ev\<in>set es. quiet ev" and "tail_inv st"
  shows "tail_inv (run_tail es st)
         \<and> owed (run_tail es st) = owed st @ filter (\<lambda>l. l \<noteq> []) (appended es)"
  using assms
proof (induction es arbitrary: st)
  case Nil
  then show ?case by (simp add: run_tail_def)
next
  case (Cons ev es)
  show ?case
  proof (cases ev)
    case (Append s)
    with Cons.prems have w: "whole_line s" by simp
    from append_keeps [OF Cons.prems(2) w] Cons.IH [of "st\<lparr>content := content st @ s\<rparr>"]
      Cons.prems(1)
    show ?thesis by (simp add: run_tail_def Append)
  next
    case (Turn d f t)
    with Cons.prems have q: "\<not> d" "\<not> f" "\<not> t" by simp_all
    from turn_keeps [OF Cons.prems(2)] Cons.IH [of "tailFile_turn False False False st"]
      Cons.prems(1)
    show ?thesis by (simp add: run_tail_def Turn q)
  qed
qed

lemma turn_backlog:
  assumes "tail_inv st"
  shows "length (complete_lines (unread (tailFile_turn False False False st))) =
         length (complete_lines (unread st)) - 1"
proof (cases "newline \<in> set (unread st)")
  case True
  from assms have nr: "\<not> returned st" and le: "pos st \<le> length (content st)"
    by (simp_all add: tail_inv_def)
  have "complete_lines (unread st) =
          takeWhile (\<lambda>c. c \<noteq> newline) (unread st) #
          complete_lines (tl (dropWhile (\<lambda>c. c \<noteq> newline) (unread st)))"
    using True by (subst complete_lines.simps) simp
  then show ?thesis by (simp add: turn_line_effect(1) [OF nr le True])
next
  case False
  from assms have nr: "\<not> returned st" and cb: "closed_buf (unread st)"
    by (simp_all add: tail_inv_def)
  have e: "unread st = []" using cb False by (rule closed_buf_no_newline)
  have "tailFile_turn False False False st = st"
    using tailFile_turn_eof [OF nr False, of False] by (simp add: e)
  then show ?thesis by (simp add: e complete_lines.simps [of "[]"])
qed

lemma append_backlog:
  assumes "tail_inv st" and "whole_line s"
  shows "length (complete_lines (unread (st\<lparr>content := content st @ s\<rparr>))) =
         length (complete_lines (unread st)) + 1"
proof -
  from assms(1) have le: "pos st \<le> length (content st)" and cb: "closed_buf (unread st)"
    by (simp_all add: tail_inv_def)
  have u: "unread (st\<lparr>content := content st @ s\<rparr>) = unread st @ s"
    using le by (simp add: unread_def)
  show ?thesis
    by (simp add: u complete_lines_append [OF cb] complete_lines_whole [OF assms(2)])
qed

lemma run_backlog:
  assumes "\<forall>ev\<in>set es. quiet ev" and "tail_inv st"
  shows "length (complete_lines (unread (run_tail es st))) \<le>
         length (complete_lines (unread st)) + length (appended es)"
  using assms
proof (induction es arbitrary: st)
  case Nil
  then show ?case by (simp add: run_tail_def)
next
  case (Cons ev es)
  show ?case
  proof (cases ev)
    case (Append s)
    with Cons.prems have w: "whole_line s" by simp
    from append_keeps [OF Cons.prems(2) w] append_backlog [OF Cons.prems(2) w]
      Cons.IH [of "st\<lparr>content := content st @ s\<rparr>"] Cons.prems(1)
    show ?thesis by (simp add: run_tail_def Append)
  next
    case (Turn d f t)
    with Cons.prems have q: "\<not> d" "\<not> f" "\<not> t" by simp_all
    from turn_keeps [OF Cons.prems(2)] turn_backlog [OF Cons.prems(2)]
      Cons.IH [of "tailFile_turn False False False st"] Cons.prems(1)
    show ?thesis by (simp add: run_tail_def Turn q)
  qed
qed

lemma drain:
  assumes "tail_inv st" and "length (complete_lines (unread st)) \<le> k"
  shows "delivered (run_tail (replicate k (Turn False False False)) st) = owed st"
  using assms
proof (induction k arbitrary: st)
  case 0
  then show ?case by (simp add: run_tail_def owed_def)
next
  case (Suc k)
  from turn_keeps [OF Suc.prems(1)] turn_backlog [OF Suc.prems(1)] Suc.prems(2)
    Suc.IH [of "tailFile_turn False False False st"]
  show ?case by (simp add: run_tail_def)
qed

lemma run_tail_append: "run_tail (es @ es') st = run_tail es' (run_tail es st)"
  by (simp add: run_tail_def)

lemma open_tail_inv: "tail_inv (open_tail old)" "owed (open_tail old) = []"
  "complete_lines (unread (open_tail old)) = []"
  by (simp_all add: tail_inv_def open_tail_def owed_def unread_def closed_buf_def
      complete_lines.simps [of "[]"])

lemma appended_turns: "appended (replicate n (Turn d f t)) = []"
  by (induction n) simp_all

text \<open>
  C2, amended. Take a file stream that has opened its file with any content \<open>old\<close>
  and is not stopped, and let whole lines be appended while the worker turns. Once the
  worker has made as many further turns as lines were appended, the callback has been
  invoked exactly once for each non-empty appended line, in the order of writing, and
  not at all for an empty line; so N non-empty lines give exactly N invocations. At
  every moment before, the invocations are a prefix of that sequence. Content present
  when the file was opened causes no invocation, however many turns are made.
\<close>

theorem tail_delivers_appended_lines:
  assumes "\<forall>ev\<in>set es. quiet ev"
  shows
    "delivered (run_tail (es @ replicate (length (appended es)) (Turn False False False))
        (open_tail old)) = filter (\<lambda>l. l \<noteq> []) (appended es)
     \<and> ((\<forall>l\<in>set (appended es). l \<noteq> []) \<longrightarrow>
          delivered (run_tail (es @ replicate (length (appended es)) (Turn False False False))
            (open_tail old)) = appended es)
     \<and> (\<exists>k. delivered (run_tail es (open_tail old)) =
              take k (filter (\<lambda>l. l \<noteq> []) (appended es)))
     \<and> delivered (run_tail (replicate n (Turn False False False)) (open_tail old)) = []"
proof -
  note k = run_keeps [OF assms open_tail_inv(1), of old]
  note b = run_backlog [OF assms open_tail_inv(1), of old]
  have d: "delivered (run_tail (es @ replicate (length (appended es)) (Turn False False False))
             (open_tail old)) = filter (\<lambda>l. l \<noteq> []) (appended es)"
    using drain [of "run_tail es (open_tail old)" "length (appended es)"] k b
    by (simp add: run_tail_append open_tail_inv)
  have "filter (\<lambda>l. l \<noteq> []) (appended es) = appended es" if "\<forall>l\<in>set (appended es). l \<noteq> []"
    using that by (simp add: filter_id_conv)
  with d have a: "(\<forall>l\<in>set (appended es). l \<noteq> []) \<longrightarrow>
          delivered (run_tail (es @ replicate (length (appended es)) (Turn False False False))
            (open_tail old)) = appended es"
    by simp
  have "filter (\<lambda>l. l \<noteq> []) (appended es) =
          delivered (run_tail es (open_tail old)) @
          filter (\<lambda>l. l \<noteq> []) (complete_lines (unread (run_tail es (open_tail old))))"
  proof -
    have "owed (run_tail es (open_tail old)) = filter (\<lambda>l. l \<noteq> []) (appended es)"
      using k by (simp only: open_tail_inv(2) append_Nil)
    then show ?thesis by (simp only: owed_def)
  qed
  then have "take (length (delivered (run_tail es (open_tail old))))
          (filter (\<lambda>l. l \<noteq> []) (appended es)) = delivered (run_tail es (open_tail old))"
    by simp
  then have p: "\<exists>k. delivered (run_tail es (open_tail old)) =
              take k (filter (\<lambda>l. l \<noteq> []) (appended es))"
    by metis
  have q: "\<forall>ev\<in>set (replicate n (Turn False False False)). quiet ev" by simp
  have n: "delivered (run_tail (replicate n (Turn False False False)) (open_tail old)) = []"
  proof -
    have "owed (run_tail (replicate n (Turn False False False)) (open_tail old)) = []"
      using run_keeps [OF q open_tail_inv(1), of old]
      by (simp only: open_tail_inv(2) appended_turns append_Nil filter.simps)
    then show ?thesis by (simp add: owed_def)
  qed
  from d a p n show ?thesis by blast
qed

theorem tail_delivers_appended_lines_witness:
  "delivered (run_tail
     ([Append ''a\<newline>'', Turn False False False, Append ''b\<newline>'', Append ''c\<newline>'']
        @ replicate 3 (Turn False False False))
     (open_tail ''old\<newline>er'')) = [''a'', ''b'', ''c'']"
proof -
  have h: "\<forall>ev\<in>set [Append ''a\<newline>'', Turn False False False, Append ''b\<newline>'',
                      Append ''c\<newline>'']. quiet ev"
    by (simp add: whole_line_def newline_def)
  show ?thesis
    using tail_delivers_appended_lines [OF h, of "''old\<newline>er''" 0]
    by (simp add: numeral_3_eq_3)
qed

text \<open>
  C2 as stated fails for an empty line: three lines are appended after the file has
  been opened, the worker reads to the end of the file, and the callback has been
  invoked twice.
\<close>

theorem tail_skips_empty_line_counterexample:
  "appended [Append ''a\<newline>'', Append ''\<newline>'', Append ''b\<newline>''] = [''a'', [], ''b'']
   \<and> run_tail ([Append ''a\<newline>'', Append ''\<newline>'', Append ''b\<newline>'']
                 @ replicate 4 (Turn False False False)) (open_tail []) =
       \<lparr>content = ''a\<newline>\<newline>b\<newline>'', pos = 5, delivered = [''a'', ''b''], returned = False\<rparr>"
  by (simp add: run_tail_def open_tail_def tailFile_turn_def ReadString_def newline_def
      Let_def eval_nat_numeral)

section \<open>Lines passed to the stream callbacks\<close>

lemma dropCR_set: "set (dropCR data) \<subseteq> set data"
  by (auto simp add: dropCR_def dest: in_set_butlastD)

lemma Scan_Token_no_newline:
  assumes "Scan data eof = Token line rest"
  shows "newline \<notin> set line"
proof (cases "newline \<in> set data \<and> length (takeWhile (\<lambda>c. c \<noteq> newline) data) < maxTokenSize")
  case True
  with assms have "line = dropCR (takeWhile (\<lambda>c. c \<noteq> newline) data)"
    by (simp add: Scan_def Let_def)
  moreover have "newline \<notin> set (takeWhile (\<lambda>c. c \<noteq> newline) data)"
    by (auto dest: set_takeWhileD)
  ultimately show ?thesis using dropCR_set by blast
next
  case False
  with assms have l: "line = dropCR data" and s: "length data < maxTokenSize"
    by (auto simp add: Scan_def Let_def split: if_splits)
  have "length (takeWhile (\<lambda>c. c \<noteq> newline) data) \<le> length data"
    by (rule length_takeWhile_le)
  with False s have "newline \<notin> set data" by simp
  with l show ?thesis using dropCR_set by blast
qed

lemma readPipe_turn_deliverable:
  assumes "\<forall>line\<in>set (delivered_p st). deliverable line"
  shows "\<forall>line\<in>set (delivered_p (readPipe_turn d t st)). deliverable line"
proof (cases "Scan (buffered st) (at_eof st)")
  case Blocked
  with assms show ?thesis by (simp add: readPipe_turn_def)
next
  case ScanFalse
  with assms show ?thesis by (simp add: readPipe_turn_def)
next
  case (Token line rest)
  from Token have "newline \<notin> set line" by (rule Scan_Token_no_newline)
  with assms Token show ?thesis
    by (simp add: readPipe_turn_def Let_def deliverable_def)
qed

lemma pipe_step_deliverable:
  "\<forall>line\<in>set (delivered_p st). deliverable line \<Longrightarrow>
   \<forall>line\<in>set (delivered_p (pipe_step ev st)). deliverable line"
  by (cases ev) (simp_all add: readPipe_turn_deliverable)

lemma run_pipe_deliverable:
  "\<forall>line\<in>set (delivered_p st). deliverable line \<Longrightarrow>
   \<forall>line\<in>set (delivered_p (run_pipe es st)). deliverable line"
  unfolding run_pipe_def
proof (induction es arbitrary: st)
  case Nil
  then show ?case by simp
next
  case (Cons ev es)
  from Cons.IH [OF pipe_step_deliverable [OF Cons.prems]] show ?case by simp
qed

lemma tailFile_turn_deliverable:
  assumes "\<forall>line\<in>set (delivered st). deliverable line"
  shows "\<forall>line\<in>set (delivered (tailFile_turn d f t st)). deliverable line"
proof -
  have "newline \<notin> set (takeWhile (\<lambda>c. c \<noteq> newline) u)" for u
    by (auto dest: set_takeWhileD)
  with assms show ?thesis
    by (simp add: tailFile_turn_def ReadString_def Let_def deliverable_def)
qed

lemma tail_step_deliverable:
  "\<forall>line\<in>set (delivered st). deliverable line \<Longrightarrow>
   \<forall>line\<in>set (delivered (tail_step ev st)). deliverable line"
  by (cases ev) (simp_all add: tailFile_turn_deliverable)

lemma run_tail_deliverable:
  "\<forall>line\<in>set (delivered st). deliverable line \<Longrightarrow>
   \<forall>line\<in>set (delivered (run_tail es st)). deliverable line"
  unfolding run_tail_def
proof (induction es arbitrary: st)
  case Nil
  then show ?case by simp
next
  case (Cons ev es)
  from Cons.IH [OF tail_step_deliverable [OF Cons.prems]] show ?case by simp
qed

lemma deliverable_last: "deliverable line \<Longrightarrow> line \<noteq> [] \<and> last line \<noteq> newline"
  by (metis deliverable_def last_in_set)

text \<open>
  C10. Whatever is written to a pipe or appended to a tailed file, whenever the pipe is
  closed, and whatever the workers observe of the done channel and the stopped flag,
  every string that \<open>readPipe\<close> and \<open>tailFile\<close> have passed to the stream's callback
  is non-empty and does not end with a newline.
\<close>

theorem callbacks_get_nonempty_lines_without_newline:
  "(\<forall>line\<in>set (delivered_p (run_pipe es new_pipe)). line \<noteq> [] \<and> last line \<noteq> newline)
   \<and> (\<forall>line\<in>set (delivered (run_tail es' (open_tail old))). line \<noteq> [] \<and> last line \<noteq> newline)"
proof -
  have "\<forall>line\<in>set (delivered_p new_pipe). deliverable line"
    by (simp add: new_pipe_def)
  from run_pipe_deliverable [OF this, of es]
  have p: "\<forall>line\<in>set (delivered_p (run_pipe es new_pipe)). line \<noteq> [] \<and> last line \<noteq> newline"
    using deliverable_last by blast
  have "\<forall>line\<in>set (delivered (open_tail old)). deliverable line"
    by (simp add: open_tail_def)
  from run_tail_deliverable [OF this, of es']
  have t: "\<forall>line\<in>set (delivered (run_tail es' (open_tail old))). line \<noteq> [] \<and> last line \<noteq> newline"
    using deliverable_last by blast
  from p t show ?thesis by simp
qed

theorem callbacks_get_nonempty_lines_without_newline_witness:
  "''c'' \<in> set (delivered_p (run_pipe
       [Write (''ab\<newline>\<newline>c'' @ [carriage_return, newline] @ ''de''),
        PipeTurn False False, PipeTurn False False, PipeTurn False False, PipeTurn False False,
        PipeTurn False False, PipeTurn False False, CloseWrite,
        PipeTurn False False, PipeTurn False False] new_pipe))
   \<and> ''c'' \<noteq> [] \<and> last ''c'' \<noteq> newline
   \<and> ''b'' \<in> set (delivered (run_tail
       [Append ''a\<newline>\<newline>b\<newline>cd'', Turn False False False, Turn False False False,
        Turn False False False, Turn False False False] (open_tail ''old'')))
   \<and> ''b'' \<noteq> [] \<and> last ''b'' \<noteq> newline"
proof -
  have p: "delivered_p (run_pipe
       [Write (''ab\<newline>\<newline>c'' @ [carriage_return, newline] @ ''de''),
        PipeTurn False False, PipeTurn False False, PipeTurn False False, PipeTurn False False,
        PipeTurn False False, PipeTurn False False, CloseWrite,
        PipeTurn False False, PipeTurn False False] new_pipe) = [''ab'', ''c'', ''de'']"
    by (simp add: run_pipe_def new_pipe_def readPipe_turn_def Scan_def dropCR_def
        maxTokenSize_def newline_def carriage_return_def Let_def)
  have t: "delivered (run_tail
       [Append ''a\<newline>\<newline>b\<newline>cd'', Turn False False False, Turn False False False,
        Turn False False False, Turn False False False] (open_tail ''old'')) = [''a'', ''b'']"
    by (simp add: run_tail_def open_tail_def tailFile_turn_def ReadString_def newline_def
        Let_def)
  have mp: "''c'' \<in> set [''ab'', ''c'', ''de'']" and mt: "''b'' \<in> set [''a'', ''b'']"
    by simp_all
  show ?thesis
    using callbacks_get_nonempty_lines_without_newline
      [of "[Write (''ab\<newline>\<newline>c'' @ [carriage_return, newline] @ ''de''),
        PipeTurn False False, PipeTurn False False, PipeTurn False False, PipeTurn False False,
        PipeTurn False False, PipeTurn False False, CloseWrite,
        PipeTurn False False, PipeTurn False False]"
       "[Append ''a\<newline>\<newline>b\<newline>cd'', Turn False False False, Turn False False False,
        Turn False False False, Turn False False False]" "''old''"]
      mp mt
    unfolding p t by blast
qed

section \<open>The done channel under concurrent calls\<close>

lemma startCommandStream_effect:
  assumes "store l = xs @ [x]" and "done_ch x = 0" and "process x = None"
  shows "\<exists>y. store (snd (startCommandStream e (length xs) l)) = xs @ [y] \<and> done_ch y = 0
            \<and> (cmd x \<noteq> None \<longrightarrow> cmd_inv y) \<and> (process y = None \<or> cmd x \<noteq> None)
            \<and> cmd y = cmd x
            \<and> (fst (startCommandStream e (length xs) l) \<noteq> Inr () \<longrightarrow>
                 snd (startCommandStream e (length xs) l) = l)
            \<and> streams (snd (startCommandStream e (length xs) l)) = streams l"
  using assms
  by (auto simp add: startCommandStream_def Let_def cmd_inv_def
      split: option.splits spawn_result.splits)

lemma StartJournalctl_effect:
  "start_effect streamID l (snd (StartJournalctlStream e streamID l))"
proof (cases "streams l streamID")
  case (Some a)
  then show ?thesis by (simp add: StartJournalctlStream_def start_effect_def)
next
  case None
  then show ?thesis
    by (cases "cmd_Start e [''journalctl'', ''-f'', ''--no-pager'', ''-o'', ''short-precise'']")
      (simp_all add: StartJournalctlStream_def Let_def startCommandStream_alloc,
       simp_all add: start_effect_def register_def alloc_def new_stream_def cmd_inv_def)
qed

lemma StartService_effect:
  "start_effect streamID l (snd (StartServiceStream e streamID serviceName l))"
proof (cases "streams l streamID")
  case (Some a)
  then show ?thesis by (simp add: StartServiceStream_def start_effect_def)
next
  case None
  then show ?thesis
    by (cases "cmd_Start e [''journalctl'', ''-f'', ''--no-pager'', ''-u'', serviceName, ''-o'',
                            ''short-precise'']")
      (simp_all add: StartServiceStream_def Let_def startCommandStream_alloc,
       simp_all add: start_effect_def register_def alloc_def new_stream_def cmd_inv_def)
qed

lemma StartAppLog_effect:
  "start_effect streamID l (snd (StartAppLogStream streamID l))"
  by (cases "streams l streamID")
    (auto simp add: StartAppLogStream_def start_effect_def Let_def startFileStream_def
      register_def alloc_def new_stream_def cmd_inv_def)

lemma StartCageLog_effect:
  "start_effect streamID l (snd (StartCageLogStream streamID l))"
  by (cases "streams l streamID")
    (auto simp add: StartCageLogStream_def start_effect_def Let_def startFileStream_def
      register_def alloc_def new_stream_def cmd_inv_def)

lemma StartEarly_effect:
  "start_effect streamID l (snd (StartEarlyLogStream e streamID l))"
proof (cases "streams l streamID")
  case (Some a)
  then show ?thesis by (simp add: StartEarlyLogStream_def start_effect_def)
next
  case None
  then show ?thesis
    by (auto simp add: StartEarlyLogStream_def start_effect_def Let_def
        startCommandStream_alloc startCommandStream_def register_def alloc_def new_stream_def
        cmd_inv_def
        split: spawn_result.splits)
qed

lemma ls_inv_start:
  assumes "ls_inv s" and "start_effect streamID (ls s) l'"
  shows "ls_inv (s\<lparr>ls := l'\<rparr>)"
proof -
  from assms(2) consider
      (same) "l' = ls s"
    | (alloc) x where "store l' = store (ls s) @ [x]" "done_ch x = 0" "cmd_inv x"
        "streams l' = streams (ls s)"
    | (reg) x where "store l' = store (ls s) @ [x]" "done_ch x = 0" "cmd_inv x"
        "streams (ls s) streamID = None"
        "streams l' = (streams (ls s))(streamID \<mapsto> length (store (ls s)))"
    unfolding start_effect_def by blast
  then show ?thesis
  proof cases
    case same
    with assms(1) show ?thesis by simp
  next
    case alloc
    with assms(1) show ?thesis
      unfolding ls_inv_def
      by (simp add: nth_append less_Suc_eq)
  next
    case reg
    from assms(1) have lt: "\<And>i a. streams (ls s) i = Some a \<Longrightarrow> a < length (store (ls s))"
      and st: "\<And>a. a \<in> set (stopping s) \<Longrightarrow> a < length (store (ls s))"
      unfolding ls_inv_def by blast+
    have fresh: "length (store (ls s)) \<notin> set (stopping s)"
      using st by blast
    have nreg: "streams (ls s) i \<noteq> Some (length (store (ls s)))" for i
      using lt [of i "length (store (ls s))"] by auto
    from assms(1) reg fresh nreg show ?thesis
      unfolding ls_inv_def
      by (auto simp add: nth_append less_Suc_eq)
  qed
qed

lemma set_map_filter_iff:
  "a \<in> set (List.map_filter f xs) \<longleftrightarrow> (\<exists>x\<in>set xs. f x = Some a)"
  by (induction xs) (auto split: option.splits)

lemma distinct_map_filter_inj:
  assumes "distinct xs" and "\<And>x y a. f x = Some a \<Longrightarrow> f y = Some a \<Longrightarrow> x = y"
  shows "distinct (List.map_filter f xs)"
  using assms(1)
proof (induction xs)
  case Nil
  then show ?case by simp
next
  case (Cons x xs)
  then show ?case
    using assms(2) by (auto simp add: set_map_filter_iff split: option.splits)
qed

lemma ls_inv_stop_remove:
  assumes "ls_inv s" and "streams (ls s) streamID = Some a"
  shows "ls_inv (s\<lparr>ls := (ls s)\<lparr>streams := (streams (ls s))(streamID := None)\<rparr>,
                   stopping := a # stopping s\<rparr>)"
  using assms unfolding ls_inv_def
  by (simp split: if_splits) blast

lemma done_ch_teardown: "done_ch (teardown x) = Suc (done_ch x)"
  by (simp add: teardown_def)

lemma cmd_inv_teardown: "cmd_inv x \<Longrightarrow> cmd_inv (teardown x)"
  by (simp add: teardown_def cmd_inv_def)

lemma ls_inv_stop_teardown:
  assumes "ls_inv s" and "a \<in> set (stopping s)"
  shows "ls_inv (s\<lparr>ls := stop_stream a (ls s), stopping := remove1 a (stopping s)\<rparr>)"
proof -
  from assms have a: "a < length (store (ls s))" "done_ch (store (ls s) ! a) = 0"
    "cmd_inv (store (ls s) ! a)" and d: "distinct (stopping s)"
    unfolding ls_inv_def by blast+
  have n: "store (stop_stream a (ls s)) ! b =
           (if b = a then teardown (store (ls s) ! a) else store (ls s) ! b)"
    if "b < length (store (ls s))" for b
    using that by (simp add: stop_stream_def nth_list_update)
  show ?thesis
    using assms a d
    unfolding ls_inv_def
    by (auto simp add: n stop_stream_length stop_stream_streams done_ch_teardown
        cmd_inv_teardown)
qed

lemma ls_inv_stop_all_remove:
  assumes "ls_inv s" and "distinct ids"
  shows "ls_inv (s\<lparr>ls := (ls s)\<lparr>streams := Map.empty\<rparr>,
                   stopping := List.map_filter (streams (ls s)) ids @ stopping s\<rparr>)"
proof -
  have d: "distinct (List.map_filter (streams (ls s)) ids)"
    using assms(2)
  proof (rule distinct_map_filter_inj)
    fix x y a
    assume "streams (ls s) x = Some a" "streams (ls s) y = Some a"
    with assms(1) show "x = y" unfolding ls_inv_def by blast
  qed
  show ?thesis
    using assms(1) d unfolding ls_inv_def
    by (auto simp add: set_map_filter_iff)
qed

lemma ls_inv_cleanup:
  assumes "ls_inv s"
  shows "ls_inv (s\<lparr>ls := cleanupStream streamID (ls s)\<rparr>)"
  using assms unfolding ls_inv_def cleanupStream_def
  by (simp split: if_splits)

lemma ls_inv_file_open:
  assumes "ls_inv s"
  shows "ls_inv (s\<lparr>ls := fileWorker_open opened a (ls s)\<rparr>)"
proof -
  have st: "streams (fileWorker_open opened a (ls s)) = streams (ls s)"
    and len: "length (store (fileWorker_open opened a (ls s))) = length (store (ls s))"
    by (simp_all add: fileWorker_open_def Let_def)
  have n: "done_ch (store (fileWorker_open opened a (ls s)) ! b) = done_ch (store (ls s) ! b)
           \<and> cmd_inv (store (fileWorker_open opened a (ls s)) ! b) = cmd_inv (store (ls s) ! b)"
    if "b < length (store (ls s))" for b
    using that by (cases "b = a") (simp_all add: fileWorker_open_def Let_def cmd_inv_def)
  show ?thesis
    using assms unfolding ls_inv_def by (simp add: st len n)
qed

lemma ls_inv_step:
  assumes "ls_trans s s'" and "ls_inv s"
  shows "ls_inv s'"
  using assms
proof (cases rule: ls_trans.cases)
  case (journalctl e streamID)
  with assms(2) show ?thesis by (simp add: ls_inv_start [OF _ StartJournalctl_effect])
next
  case (service e streamID serviceName)
  with assms(2) show ?thesis by (simp add: ls_inv_start [OF _ StartService_effect])
next
  case (app_log streamID)
  with assms(2) show ?thesis by (simp add: ls_inv_start [OF _ StartAppLog_effect])
next
  case (cage_log streamID)
  with assms(2) show ?thesis by (simp add: ls_inv_start [OF _ StartCageLog_effect])
next
  case (early e streamID)
  with assms(2) show ?thesis by (simp add: ls_inv_start [OF _ StartEarly_effect])
next
  case (stop_remove streamID a)
  with assms(2) show ?thesis by (simp add: ls_inv_stop_remove)
next
  case (stop_teardown a)
  with assms(2) show ?thesis by (simp add: ls_inv_stop_teardown)
next
  case (stop_all_remove ids)
  with assms(2) show ?thesis by (simp add: ls_inv_stop_all_remove)
next
  case (natural_exit a)
  with assms(2) show ?thesis by (simp add: ls_inv_cleanup)
next
  case (file_open a filePath opened)
  with assms(2) show ?thesis by (simp add: ls_inv_file_open)
qed

lemma ls_inv_init: "ls_inv ls_init"
  by (simp add: ls_inv_def ls_init_def NewLogStreamer_def)

lemma ls_reachable_inv: "ls_reachable s \<Longrightarrow> ls_inv s"
  unfolding ls_reachable_def
  by (induction rule: rtranclp_induct) (simp_all add: ls_inv_init ls_inv_step)

lemma start_effect_old:
  assumes "start_effect streamID l l'" and "a < length (store l)"
  shows "store l' ! a = store l ! a"
  using assms unfolding start_effect_def by (auto simp add: nth_append)

lemma ls_done_changes:
  assumes "ls_trans s s'" and "ls_inv s" and "a < length (store (ls s))"
    and "done_ch (store (ls s') ! a) \<noteq> done_ch (store (ls s) ! a)"
  shows "a \<in> set (stopping s) \<and> done_ch (store (ls s') ! a) = 1
         \<and> (\<forall>streamID. streams (ls s) streamID \<noteq> Some a)"
  using assms(1)
proof (cases rule: ls_trans.cases)
  case (journalctl e streamID)
  with assms(3,4) start_effect_old [OF StartJournalctl_effect, of a "ls s" e streamID]
  show ?thesis by simp
next
  case (service e streamID serviceName)
  with assms(3,4) start_effect_old [OF StartService_effect, of a "ls s" e streamID serviceName]
  show ?thesis by simp
next
  case (app_log streamID)
  with assms(3,4) start_effect_old [OF StartAppLog_effect, of a "ls s" streamID]
  show ?thesis by simp
next
  case (cage_log streamID)
  with assms(3,4) start_effect_old [OF StartCageLog_effect, of a "ls s" streamID]
  show ?thesis by simp
next
  case (early e streamID)
  with assms(3,4) start_effect_old [OF StartEarly_effect, of a "ls s" e streamID]
  show ?thesis by simp
next
  case (stop_remove streamID b)
  with assms(4) show ?thesis by simp
next
  case (stop_teardown b)
  have ab: "a = b"
  proof (rule ccontr)
    assume "a \<noteq> b"
    with assms(3,4) stop_teardown show False by (simp add: stop_stream_def)
  qed
  from assms(2) stop_teardown(2) ab have z: "done_ch (store (ls s) ! a) = 0"
    by (simp add: ls_inv_def)
  from assms(2) stop_teardown(2) ab have nr: "\<forall>streamID. streams (ls s) streamID \<noteq> Some a"
    by (auto simp add: ls_inv_def)
  from stop_teardown ab assms(3) z nr show ?thesis
    by (simp add: stop_stream_def done_ch_teardown)
next
  case (stop_all_remove ids)
  with assms(4) show ?thesis by simp
next
  case (natural_exit b)
  with assms(4) show ?thesis by (simp add: cleanupStream_def)
next
  case (file_open b filePath opened)
  have "done_ch (store (fileWorker_open opened b (ls s)) ! a) = done_ch (store (ls s) ! a)"
    using assms(3) by (cases "a = b") (simp_all add: fileWorker_open_def Let_def)
  with assms(4) file_open show ?thesis by simp
qed

lemma em_inv_init: "em_inv (em_init out ex er)"
  by (simp add: em_inv_def em_init_def NewExecManager_def)

lemma em_invI:
  assumes "\<And>i b. sessions (em s) i = Some b \<Longrightarrow>
             b < length (store_e (em s)) \<and> b \<notin> set (stopping_e s)
             \<and> b \<notin> snd ` set (starting_e s) \<and> done_e (store_e (em s) ! b) = 0"
    and "\<And>i j b. sessions (em s) i = Some b \<Longrightarrow> sessions (em s) j = Some b \<Longrightarrow> i = j"
    and "distinct (stopping_e s)"
    and "\<And>b. b \<in> set (stopping_e s) \<Longrightarrow>
             b < length (store_e (em s)) \<and> b \<notin> snd ` set (starting_e s)
             \<and> done_e (store_e (em s) ! b) = 0"
    and "distinct (map snd (starting_e s))"
    and "\<And>b. b \<in> snd ` set (starting_e s) \<Longrightarrow>
             b < length (store_e (em s)) \<and> done_e (store_e (em s) ! b) = 0"
    and "\<And>b. b < length (store_e (em s)) \<Longrightarrow> done_e (store_e (em s) ! b) \<le> 1"
  shows "em_inv s"
  unfolding em_inv_def
proof (intro conjI)
  show "\<forall>sessionID a. sessions (em s) sessionID = Some a \<longrightarrow>
          a < length (store_e (em s)) \<and> a \<notin> set (stopping_e s)
          \<and> a \<notin> snd ` set (starting_e s) \<and> done_e (store_e (em s) ! a) = 0"
    using assms(1) by (intro allI impI)
  show "\<forall>sessionID sessionID' a.
            sessions (em s) sessionID = Some a \<and> sessions (em s) sessionID' = Some a \<longrightarrow>
            sessionID = sessionID'"
    using assms(2) by (intro allI impI) (elim conjE)
  show "distinct (stopping_e s)" by (rule assms(3))
  show "\<forall>a\<in>set (stopping_e s). a < length (store_e (em s))
            \<and> a \<notin> snd ` set (starting_e s) \<and> done_e (store_e (em s) ! a) = 0"
    using assms(4) by (intro ballI)
  show "distinct (map snd (starting_e s))" by (rule assms(5))
  show "\<forall>a\<in>snd ` set (starting_e s). a < length (store_e (em s))
            \<and> done_e (store_e (em s) ! a) = 0"
    using assms(6) by (intro ballI)
  show "\<forall>a<length (store_e (em s)). done_e (store_e (em s) ! a) \<le> 1"
    using assms(7) by (intro allI impI)
qed

lemma em_invD:
  assumes "em_inv s"
  shows "sessions (em s) i = Some b \<Longrightarrow>
             b < length (store_e (em s)) \<and> b \<notin> set (stopping_e s)
             \<and> b \<notin> snd ` set (starting_e s) \<and> done_e (store_e (em s) ! b) = 0"
    and "sessions (em s) i = Some b \<Longrightarrow> sessions (em s) j = Some b \<Longrightarrow> i = j"
    and "distinct (stopping_e s)"
    and "b \<in> set (stopping_e s) \<Longrightarrow>
             b < length (store_e (em s)) \<and> b \<notin> snd ` set (starting_e s)
             \<and> done_e (store_e (em s) ! b) = 0"
    and "distinct (map snd (starting_e s))"
    and "b \<in> snd ` set (starting_e s) \<Longrightarrow>
             b < length (store_e (em s)) \<and> done_e (store_e (em s) ! b) = 0"
    and "b < length (store_e (em s)) \<Longrightarrow> done_e (store_e (em s) ! b) \<le> 1"
proof -
  from assms have c: "em_inv s" .
  note c1 = c [unfolded em_inv_def, THEN conjunct1]
  note r1 = c [unfolded em_inv_def, THEN conjunct2]
  note c2 = r1 [THEN conjunct1]
  note r2 = r1 [THEN conjunct2]
  note c3 = r2 [THEN conjunct1]
  note r3 = r2 [THEN conjunct2]
  note c4 = r3 [THEN conjunct1]
  note r4 = r3 [THEN conjunct2]
  note c5 = r4 [THEN conjunct1]
  note r5 = r4 [THEN conjunct2]
  note c6 = r5 [THEN conjunct1]
  note c7 = r5 [THEN conjunct2]
  show "sessions (em s) i = Some b \<Longrightarrow>
             b < length (store_e (em s)) \<and> b \<notin> set (stopping_e s)
             \<and> b \<notin> snd ` set (starting_e s) \<and> done_e (store_e (em s) ! b) = 0"
    using c1 [rule_format, of i b] .
  show "sessions (em s) i = Some b \<Longrightarrow> sessions (em s) j = Some b \<Longrightarrow> i = j"
    using c2 [rule_format, of i b j] by simp
  show "distinct (stopping_e s)" by (rule c3)
  show "b \<in> set (stopping_e s) \<Longrightarrow>
             b < length (store_e (em s)) \<and> b \<notin> snd ` set (starting_e s)
             \<and> done_e (store_e (em s) ! b) = 0"
    using c4 [rule_format, of b] .
  show "distinct (map snd (starting_e s))" by (rule c5)
  show "b \<in> snd ` set (starting_e s) \<Longrightarrow>
             b < length (store_e (em s)) \<and> done_e (store_e (em s) ! b) = 0"
    using c6 [rule_format, of b] .
  show "b < length (store_e (em s)) \<Longrightarrow> done_e (store_e (em s) ! b) \<le> 1"
    using c7 [rule_format, of b] .
qed

lemma em_inv_spawn:
  assumes "em_inv s" and "Start_spawn e sessionID shell (em s) = (Inr a, m')"
  shows "em_inv (s\<lparr>em := m', starting_e := (sessionID, a) # starting_e s\<rparr>)"
proof -
  let ?n = "length (store_e (em s))"
  let ?s' = "s\<lparr>em := m', starting_e := (sessionID, a) # starting_e s\<rparr>"
  from assms(2) obtain x where a: "a = ?n"
    and m: "store_e m' = store_e (em s) @ [x]" "sessions m' = sessions (em s)"
    and x: "done_e x = 0"
    by (auto simp add: Start_spawn_def Let_def split: if_splits)
  note D = em_invD [OF assms(1)]
  have old: "(store_e (em s) @ [x]) ! b = store_e (em s) ! b" if "b < ?n" for b
    using that by (simp add: nth_append)
  show ?thesis
  proof (rule em_invI)
    fix i b assume r: "sessions (em ?s') i = Some b"
    then have "sessions (em s) i = Some b" by (simp add: m)
    from D(1) [OF this] show "b < length (store_e (em ?s'))
        \<and> b \<notin> set (stopping_e ?s') \<and> b \<notin> snd ` set (starting_e ?s')
        \<and> done_e (store_e (em ?s') ! b) = 0"
      by (simp add: m a old)
  next
    fix i j b
    assume "sessions (em ?s') i = Some b" and "sessions (em ?s') j = Some b"
    then show "i = j" using D(2) [of i b j] by (simp add: m)
  next
    show "distinct (stopping_e ?s')" using D(3) by simp
  next
    fix b assume "b \<in> set (stopping_e ?s')"
    then have "b \<in> set (stopping_e s)" by simp
    from D(4) [OF this] show "b < length (store_e (em ?s'))
        \<and> b \<notin> snd ` set (starting_e ?s') \<and> done_e (store_e (em ?s') ! b) = 0"
      by (simp add: m a old)
  next
    have "?n \<notin> snd ` set (starting_e s)" using D(6) [of ?n] by blast
    then show "distinct (map snd (starting_e ?s'))" using D(5) by (simp add: a)
  next
    fix b assume "b \<in> snd ` set (starting_e ?s')"
    then consider "b = ?n" | "b \<in> snd ` set (starting_e s)" by (auto simp add: a)
    then show "b < length (store_e (em ?s')) \<and> done_e (store_e (em ?s') ! b) = 0"
    proof cases
      case 1
      then show ?thesis by (simp add: m x)
    next
      case 2
      from D(6) [OF this] show ?thesis by (simp add: m old)
    qed
  next
    fix b assume "b < length (store_e (em ?s'))"
    then have "b < Suc ?n" by (simp add: m)
    then consider "b = ?n" | "b < ?n" by (auto simp add: less_Suc_eq)
    then show "done_e (store_e (em ?s') ! b) \<le> 1"
    proof cases
      case 1
      then show ?thesis by (simp add: m x)
    next
      case 2
      with D(7) [OF 2] show ?thesis by (simp add: m old)
    qed
  qed
qed

lemma snd_set_remove1:
  assumes "distinct (map snd xs)" and "(k, a) \<in> set xs"
  shows "snd ` set (remove1 (k, a) xs) = snd ` set xs - {a}"
  using assms
proof (induction xs)
  case Nil
  then show ?case by simp
next
  case (Cons x xs)
  show ?case
  proof (cases "x = (k, a)")
    case True
    with Cons.prems show ?thesis by auto
  next
    case False
    with Cons.prems have in_tl: "(k, a) \<in> set xs" and d: "distinct (map snd xs)"
      and nx: "snd x \<notin> snd ` set xs" by auto
    from in_tl have "a \<in> snd ` set xs" by (metis image_eqI snd_conv)
    with nx have "snd x \<noteq> a" by blast
    with Cons.IH [OF d in_tl] False show ?thesis by auto
  qed
qed

lemma distinct_snd_remove1:
  "distinct (map snd xs) \<Longrightarrow> distinct (map snd (remove1 x xs))"
proof (induction xs)
  case Nil
  then show ?case by simp
next
  case (Cons y ys)
  have "snd ` set (remove1 x ys) \<subseteq> snd ` set ys"
    using set_remove1_subset [of x ys] by blast
  with Cons show ?case by auto
qed

lemma em_inv_register:
  assumes "em_inv s" and "(sessionID, a) \<in> set (starting_e s)"
  shows "em_inv (s\<lparr>em := Start_register sessionID a (em s),
                   starting_e := remove1 (sessionID, a) (starting_e s)\<rparr>)"
proof -
  let ?s' = "s\<lparr>em := Start_register sessionID a (em s),
                starting_e := remove1 (sessionID, a) (starting_e s)\<rparr>"
  note D = em_invD [OF assms(1)]
  have ain: "a \<in> snd ` set (starting_e s)" using assms(2) by force
  have sg: "snd ` set (remove1 (sessionID, a) (starting_e s)) = snd ` set (starting_e s) - {a}"
    using snd_set_remove1 [OF D(5) assms(2)] by simp
  have st: "store_e (Start_register sessionID a (em s)) = store_e (em s)"
    and se: "sessions (Start_register sessionID a (em s)) = (sessions (em s))(sessionID \<mapsto> a)"
    by (simp_all add: Start_register_def)
  have nreg: "sessions (em s) i \<noteq> Some a" for i
    using D(1) [of i a] ain by blast
  have nstop: "a \<notin> set (stopping_e s)"
    using D(4) [of a] ain by blast
  show ?thesis
  proof (rule em_invI)
    fix i b assume r: "sessions (em ?s') i = Some b"
    show "b < length (store_e (em ?s')) \<and> b \<notin> set (stopping_e ?s')
        \<and> b \<notin> snd ` set (starting_e ?s') \<and> done_e (store_e (em ?s') ! b) = 0"
    proof (cases "i = sessionID")
      case True
      with r have "b = a" by (simp add: se)
      with D(6) [OF ain] nstop show ?thesis by (simp add: st sg)
    next
      case False
      with r have "sessions (em s) i = Some b" by (simp add: se)
      from D(1) [OF this] show ?thesis by (simp add: st sg)
    qed
  next
    fix i j b
    assume "sessions (em ?s') i = Some b" and "sessions (em ?s') j = Some b"
    then show "i = j"
      using D(2) [of i b j] nreg [of i] nreg [of j]
      by (simp add: se split: if_splits)
  next
    show "distinct (stopping_e ?s')" using D(3) by (simp add: st)
  next
    fix b assume "b \<in> set (stopping_e ?s')"
    then have "b \<in> set (stopping_e s)" by (simp add: st)
    from D(4) [OF this] show "b < length (store_e (em ?s'))
        \<and> b \<notin> snd ` set (starting_e ?s') \<and> done_e (store_e (em ?s') ! b) = 0"
      by (simp add: st sg)
  next
    show "distinct (map snd (starting_e ?s'))"
      using distinct_snd_remove1 [OF D(5)] by simp
  next
    fix b assume "b \<in> snd ` set (starting_e ?s')"
    then have "b \<in> snd ` set (starting_e s)" by (simp add: sg)
    from D(6) [OF this] show "b < length (store_e (em ?s'))
        \<and> done_e (store_e (em ?s') ! b) = 0"
      by (simp add: st)
  next
    fix b assume "b < length (store_e (em ?s'))"
    then have "b < length (store_e (em s))" by (simp add: st)
    from D(7) [OF this] show "done_e (store_e (em ?s') ! b) \<le> 1" by (simp add: st)
  qed
qed

lemma em_inv_stop_remove:
  assumes "em_inv s" and "sessions (em s) sessionID = Some a"
  shows "em_inv (s\<lparr>em := (em s)\<lparr>sessions := (sessions (em s))(sessionID := None)\<rparr>,
                   stopping_e := a # stopping_e s\<rparr>)"
proof -
  let ?s' = "s\<lparr>em := (em s)\<lparr>sessions := (sessions (em s))(sessionID := None)\<rparr>,
                stopping_e := a # stopping_e s\<rparr>"
  note D = em_invD [OF assms(1)]
  note A = D(1) [OF assms(2)]
  show ?thesis
  proof (rule em_invI)
    fix i b assume r: "sessions (em ?s') i = Some b"
    then have i: "i \<noteq> sessionID" and o: "sessions (em s) i = Some b"
      by (simp_all split: if_splits)
    have "b \<noteq> a" using D(2) [OF o, of sessionID] assms(2) i by blast
    with D(1) [OF o] show "b < length (store_e (em ?s')) \<and> b \<notin> set (stopping_e ?s')
        \<and> b \<notin> snd ` set (starting_e ?s') \<and> done_e (store_e (em ?s') ! b) = 0"
      by simp
  next
    fix i j b
    assume "sessions (em ?s') i = Some b" and "sessions (em ?s') j = Some b"
    then show "i = j" using D(2) [of i b j] by (simp split: if_splits)
  next
    show "distinct (stopping_e ?s')" using D(3) A by simp
  next
    fix b assume "b \<in> set (stopping_e ?s')"
    then consider "b = a" | "b \<in> set (stopping_e s)" by auto
    then show "b < length (store_e (em ?s'))
        \<and> b \<notin> snd ` set (starting_e ?s') \<and> done_e (store_e (em ?s') ! b) = 0"
    proof cases
      case 1
      with A show ?thesis by simp
    next
      case 2
      from D(4) [OF this] show ?thesis by simp
    qed
  next
    show "distinct (map snd (starting_e ?s'))" using D(5) by simp
  next
    fix b assume "b \<in> snd ` set (starting_e ?s')"
    then have "b \<in> snd ` set (starting_e s)" by simp
    from D(6) [OF this] show "b < length (store_e (em ?s'))
        \<and> done_e (store_e (em ?s') ! b) = 0"
      by simp
  next
    fix b assume "b < length (store_e (em ?s'))"
    then have "b < length (store_e (em s))" by simp
    from D(7) [OF this] show "done_e (store_e (em ?s') ! b) \<le> 1" by simp
  qed
qed

lemma em_inv_stop_teardown:
  assumes "em_inv s" and "a \<in> set (stopping_e s)"
  shows "em_inv (s\<lparr>em := (em s)\<lparr>store_e := (store_e (em s))
                                    [a := teardown_e (store_e (em s) ! a)]\<rparr>,
                   stopping_e := remove1 a (stopping_e s)\<rparr>)"
proof -
  let ?s' = "s\<lparr>em := (em s)\<lparr>store_e := (store_e (em s))
                                    [a := teardown_e (store_e (em s) ! a)]\<rparr>,
                stopping_e := remove1 a (stopping_e s)\<rparr>"
  note D = em_invD [OF assms(1)]
  note A = D(4) [OF assms(2)]
  have other: "store_e (em ?s') ! b = store_e (em s) ! b" if "b \<noteq> a" for b
    using that by simp
  have self: "done_e (store_e (em ?s') ! a) = 1"
    using A by (simp add: teardown_e_def)
  have sp: "set (remove1 a (stopping_e s)) = set (stopping_e s) - {a}"
    using D(3) by simp
  show ?thesis
  proof (rule em_invI)
    fix i b assume r: "sessions (em ?s') i = Some b"
    then have o: "sessions (em s) i = Some b" by simp
    from D(1) [OF o] assms(2) have "b \<noteq> a" by blast
    with D(1) [OF o] show "b < length (store_e (em ?s')) \<and> b \<notin> set (stopping_e ?s')
        \<and> b \<notin> snd ` set (starting_e ?s') \<and> done_e (store_e (em ?s') ! b) = 0"
      by (simp add: sp)
  next
    fix i j b
    assume "sessions (em ?s') i = Some b" and "sessions (em ?s') j = Some b"
    then show "i = j" using D(2) [of i b j] by simp
  next
    show "distinct (stopping_e ?s')" using D(3) by simp
  next
    fix b assume "b \<in> set (stopping_e ?s')"
    then have b: "b \<in> set (stopping_e s)" "b \<noteq> a" by (simp_all add: sp)
    from D(4) [OF b(1)] b(2) show "b < length (store_e (em ?s'))
        \<and> b \<notin> snd ` set (starting_e ?s') \<and> done_e (store_e (em ?s') ! b) = 0"
      by simp
  next
    show "distinct (map snd (starting_e ?s'))" using D(5) by simp
  next
    fix b assume b: "b \<in> snd ` set (starting_e ?s')"
    then have b': "b \<in> snd ` set (starting_e s)" by simp
    with A have "b \<noteq> a" by blast
    with D(6) [OF b'] show "b < length (store_e (em ?s'))
        \<and> done_e (store_e (em ?s') ! b) = 0"
      by simp
  next
    fix b assume "b < length (store_e (em ?s'))"
    then have lt: "b < length (store_e (em s))" by simp
    show "done_e (store_e (em ?s') ! b) \<le> 1"
    proof (cases "b = a")
      case True
      with self show ?thesis by simp
    next
      case False
      with D(7) [OF lt] show ?thesis by simp
    qed
  qed
qed

lemma em_inv_frame:
  assumes "em_inv s" and "sessions m' = sessions (em s)" and "store_e m' = store_e (em s)"
  shows "em_inv (s\<lparr>em := m'\<rparr>)"
  using assms unfolding em_inv_def by simp

lemma em_inv_step:
  assumes "em_trans s s'" and "em_inv s"
  shows "em_inv s'"
  using assms(1)
proof (cases rule: em_trans.cases)
  case (spawn e sessionID shell a m')
  with assms(2) show ?thesis by (simp add: em_inv_spawn)
next
  case (register sessionID a)
  with assms(2) show ?thesis by (simp add: em_inv_register)
next
  case (stop_remove sessionID a)
  with assms(2) show ?thesis by (simp add: em_inv_stop_remove)
next
  case (stop_teardown a)
  with assms(2) show ?thesis by (simp add: em_inv_stop_teardown)
next
  case (exit_callback a err)
  with assms(2) show ?thesis by (simp add: em_inv_frame)
next
  case (read a r)
  have "sessions (snd (readLoop_read a r (em s))) = sessions (em s)"
    and "store_e (snd (readLoop_read a r (em s))) = store_e (em s)"
    by (simp_all add: readLoop_read_def Let_def split: read_result.splits)
  with assms(2) read show ?thesis by (simp add: em_inv_frame)
qed

lemma em_reachable_inv: "em_reachable s \<Longrightarrow> em_inv s"
proof -
  assume "em_reachable s"
  then obtain out ex er where "em_trans\<^sup>*\<^sup>* (em_init out ex er) s"
    unfolding em_reachable_def by blast
  then show ?thesis
    by (induction rule: rtranclp_induct) (simp_all add: em_inv_init em_inv_step)
qed

lemma em_done_changes:
  assumes "em_trans s s'" and "em_inv s" and "a < length (store_e (em s))"
    and "done_e (store_e (em s') ! a) \<noteq> done_e (store_e (em s) ! a)"
  shows "a \<in> set (stopping_e s) \<and> done_e (store_e (em s') ! a) = 1
         \<and> (\<forall>sessionID. sessions (em s) sessionID \<noteq> Some a)"
  using assms(1)
proof (cases rule: em_trans.cases)
  case (spawn e sessionID shell b m')
  then have "\<exists>x. store_e m' = store_e (em s) @ [x]"
    by (auto simp add: Start_spawn_def Let_def split: if_splits)
  with assms(3,4) spawn show ?thesis by (auto simp add: nth_append)
next
  case (register sessionID b)
  with assms(4) show ?thesis by (simp add: Start_register_def)
next
  case (stop_remove sessionID b)
  with assms(4) show ?thesis by simp
next
  case (stop_teardown b)
  have ab: "a = b"
  proof (rule ccontr)
    assume "a \<noteq> b"
    with assms(4) stop_teardown show False by simp
  qed
  note D = em_invD [OF assms(2)]
  from D(4) [of a] stop_teardown(2) ab have z: "done_e (store_e (em s) ! a) = 0" by simp
  have nr: "sessions (em s) i \<noteq> Some a" for i
    using D(1) [of i a] stop_teardown(2) ab by blast
  from stop_teardown ab assms(3) z nr show ?thesis
    by (simp add: teardown_e_def)
next
  case (exit_callback b err)
  with assms(4) show ?thesis by (simp split: if_splits)
next
  case (read b r)
  have "store_e (snd (readLoop_read b r (em s))) = store_e (em s)"
    by (simp add: readLoop_read_def Let_def split: read_result.splits)
  with assms(4) read show ?thesis by simp
qed

lemma start_effect_orphan:
  assumes "start_effect streamID l l'" and "a < length (store l)"
    and "\<forall>i. streams l i \<noteq> Some a"
  shows "a < length (store l') \<and> (\<forall>i. streams l' i \<noteq> Some a)"
  using assms unfolding start_effect_def by (auto split: if_splits)

lemma ls_orphan_step:
  assumes "ls_trans s s'" and "ls_inv s" and "a < length (store (ls s))"
    and "\<forall>i. streams (ls s) i \<noteq> Some a" and "a \<notin> set (stopping s)"
  shows "a < length (store (ls s')) \<and> (\<forall>i. streams (ls s') i \<noteq> Some a)
         \<and> a \<notin> set (stopping s')
         \<and> done_ch (store (ls s') ! a) = done_ch (store (ls s) ! a)"
proof -
  have d: "done_ch (store (ls s') ! a) = done_ch (store (ls s) ! a)"
    using ls_done_changes [OF assms(1,2,3)] assms(5) by blast
  have "a < length (store (ls s')) \<and> (\<forall>i. streams (ls s') i \<noteq> Some a)
         \<and> a \<notin> set (stopping s')"
    using assms(1)
  proof (cases rule: ls_trans.cases)
    case (journalctl e streamID)
    then have "start_effect streamID (ls s) (ls s')" by (simp add: StartJournalctl_effect)
    from start_effect_orphan [OF this assms(3,4)] journalctl assms(5)
    show ?thesis by simp
  next
    case (service e streamID serviceName)
    then have "start_effect streamID (ls s) (ls s')" by (simp add: StartService_effect)
    from start_effect_orphan [OF this assms(3,4)] service assms(5)
    show ?thesis by simp
  next
    case (app_log streamID)
    then have "start_effect streamID (ls s) (ls s')" by (simp add: StartAppLog_effect)
    from start_effect_orphan [OF this assms(3,4)] app_log assms(5)
    show ?thesis by simp
  next
    case (cage_log streamID)
    then have "start_effect streamID (ls s) (ls s')" by (simp add: StartCageLog_effect)
    from start_effect_orphan [OF this assms(3,4)] cage_log assms(5)
    show ?thesis by simp
  next
    case (early e streamID)
    then have "start_effect streamID (ls s) (ls s')" by (simp add: StartEarly_effect)
    from start_effect_orphan [OF this assms(3,4)] early assms(5)
    show ?thesis by simp
  next
    case (stop_remove streamID b)
    with assms(3,4,5) show ?thesis by auto
  next
    case (stop_teardown b)
    with assms(3,4,5) show ?thesis
      by (auto simp add: stop_stream_length stop_stream_streams dest: notin_set_remove1)
  next
    case (stop_all_remove ids)
    with assms(3,4,5) show ?thesis by (auto simp add: set_map_filter_iff)
  next
    case (natural_exit b)
    with assms(3,4,5) show ?thesis by (simp add: cleanupStream_def)
  next
    case (file_open b filePath opened)
    with assms(3,4,5) show ?thesis by (simp add: fileWorker_open_def Let_def)
  qed
  with d show ?thesis by simp
qed

lemma ls_orphan_forever:
  assumes "ls_trans\<^sup>*\<^sup>* s s'" and "ls_inv s" and "a < length (store (ls s))"
    and "\<forall>i. streams (ls s) i \<noteq> Some a" and "a \<notin> set (stopping s)"
  shows "ls_inv s' \<and> a < length (store (ls s')) \<and> (\<forall>i. streams (ls s') i \<noteq> Some a)
         \<and> a \<notin> set (stopping s')
         \<and> done_ch (store (ls s') ! a) = done_ch (store (ls s) ! a)"
  using assms(1)
proof (induction rule: rtranclp_induct)
  case base
  with assms show ?case by simp
next
  case (step y z)
  from step.IH have i: "ls_inv y" and l: "a < length (store (ls y))"
    and r: "\<forall>i. streams (ls y) i \<noteq> Some a" and p: "a \<notin> set (stopping y)"
    and d: "done_ch (store (ls y) ! a) = done_ch (store (ls s) ! a)"
    by simp_all
  from ls_orphan_step [OF step.hyps(2) i l r p] ls_inv_step [OF step.hyps(2) i] d
  show ?case by simp
qed

lemma em_orphan_step:
  assumes "em_trans s s'" and "em_inv s" and "a < length (store_e (em s))"
    and "\<forall>i. sessions (em s) i \<noteq> Some a" and "a \<notin> set (stopping_e s)"
    and "a \<notin> snd ` set (starting_e s)"
  shows "a < length (store_e (em s')) \<and> (\<forall>i. sessions (em s') i \<noteq> Some a)
         \<and> a \<notin> set (stopping_e s') \<and> a \<notin> snd ` set (starting_e s')
         \<and> done_e (store_e (em s') ! a) = done_e (store_e (em s) ! a)"
proof -
  have d: "done_e (store_e (em s') ! a) = done_e (store_e (em s) ! a)"
    using em_done_changes [OF assms(1,2,3)] assms(5) by blast
  have "a < length (store_e (em s')) \<and> (\<forall>i. sessions (em s') i \<noteq> Some a)
         \<and> a \<notin> set (stopping_e s') \<and> a \<notin> snd ` set (starting_e s')"
    using assms(1)
  proof (cases rule: em_trans.cases)
    case (spawn e sessionID shell b m')
    then have "b = length (store_e (em s))" "sessions m' = sessions (em s)"
      "length (store_e m') = Suc (length (store_e (em s)))"
      by (auto simp add: Start_spawn_def Let_def split: if_splits)
    with spawn assms(3,4,5,6) show ?thesis by auto
  next
    case (register sessionID b)
    then have "b \<in> snd ` set (starting_e s)" by force
    with assms(6) have "b \<noteq> a" by blast
    moreover have "snd ` set (remove1 (sessionID, b) (starting_e s)) \<subseteq> snd ` set (starting_e s)"
      using set_remove1_subset [of "(sessionID, b)" "starting_e s"] by blast
    ultimately show ?thesis
      using register assms(3,4,5,6) by (auto simp add: Start_register_def)
  next
    case (stop_remove sessionID b)
    with assms(3,4,5,6) show ?thesis by auto
  next
    case (stop_teardown b)
    with assms(3,4,5,6) show ?thesis by (auto dest: notin_set_remove1)
  next
    case (exit_callback b err)
    with assms(3,4,5,6) show ?thesis by simp
  next
    case (read b r)
    have "sessions (snd (readLoop_read b r (em s))) = sessions (em s)"
      and "store_e (snd (readLoop_read b r (em s))) = store_e (em s)"
      by (simp_all add: readLoop_read_def Let_def split: read_result.splits)
    with read assms(3,4,5,6) show ?thesis by simp
  qed
  with d show ?thesis by simp
qed

lemma em_orphan_forever:
  assumes "em_trans\<^sup>*\<^sup>* s s'" and "em_inv s" and "a < length (store_e (em s))"
    and "\<forall>i. sessions (em s) i \<noteq> Some a" and "a \<notin> set (stopping_e s)"
    and "a \<notin> snd ` set (starting_e s)"
  shows "em_inv s' \<and> a < length (store_e (em s')) \<and> (\<forall>i. sessions (em s') i \<noteq> Some a)
         \<and> a \<notin> set (stopping_e s') \<and> a \<notin> snd ` set (starting_e s')
         \<and> done_e (store_e (em s') ! a) = done_e (store_e (em s) ! a)"
  using assms(1)
proof (induction rule: rtranclp_induct)
  case base
  with assms show ?case by simp
next
  case (step y z)
  from step.IH have i: "em_inv y" and l: "a < length (store_e (em y))"
    and r: "\<forall>i. sessions (em y) i \<noteq> Some a" and p: "a \<notin> set (stopping_e y)"
    and q: "a \<notin> snd ` set (starting_e y)"
    and d: "done_e (store_e (em y) ! a) = done_e (store_e (em s) ! a)"
    by simp_all
  from em_orphan_step [OF step.hyps(2) i l r p q] em_inv_step [OF step.hyps(2) i] d
  show ?case by simp
qed

lemma Stop_is_remove_then_teardown:
  assumes "streams l streamID = Some a"
  shows "ls_trans\<^sup>*\<^sup>* \<lparr>ls = l, stopping = []\<rparr> \<lparr>ls = LogStreamer_Stop streamID l, stopping = []\<rparr>"
proof -
  let ?s0 = "\<lparr>ls = l, stopping = []\<rparr>"
  let ?s1 = "?s0\<lparr>ls := (ls ?s0)\<lparr>streams := (streams (ls ?s0))(streamID := None)\<rparr>,
                 stopping := a # stopping ?s0\<rparr>"
  let ?s2 = "?s1\<lparr>ls := stop_stream a (ls ?s1), stopping := remove1 a (stopping ?s1)\<rparr>"
  have "ls_trans ?s0 ?s1" by (rule ls_trans.stop_remove) (simp add: assms)
  moreover have "ls_trans ?s1 ?s2" by (rule ls_trans.stop_teardown) simp
  moreover have "?s2 = \<lparr>ls = LogStreamer_Stop streamID l, stopping = []\<rparr>"
    by (simp add: LogStreamer_Stop_def assms)
  ultimately show ?thesis by (simp only: rtranclp.rtrancl_into_rtrancl [OF r_into_rtranclp])
qed

lemma started_stream_eq:
  "snd (StartJournalctlStream env_sh_only ''sys'' NewLogStreamer) =
     \<lparr>streams = [''sys'' \<mapsto> 0],
      store = [\<lparr>ID = ''sys'', Service = [], StreamType = LogStreamTypeCommand,
                cmd = Some [''journalctl'', ''-f'', ''--no-pager'', ''-o'', ''short-precise''],
                process = Some Running, file_h = None, done_ch = 0, stopped = False\<rparr>],
      goroutines = [ReadPipe 0 Stdout, ReadPipe 0 Stderr, Waiter 0]\<rparr>"
  by (simp add: StartJournalctlStream_def startCommandStream_def alloc_def register_def
      new_stream_def env_sh_only_def NewLogStreamer_def Let_def)

lemma started_stream_reachable:
  "ls_reachable \<lparr>ls = snd (StartJournalctlStream env_sh_only ''sys'' NewLogStreamer), stopping = []\<rparr>"
proof -
  have "ls_trans ls_init (ls_init\<lparr>ls := snd (StartJournalctlStream env_sh_only ''sys'' (ls ls_init))\<rparr>)"
    by (rule ls_trans.journalctl)
  then show ?thesis
    unfolding ls_reachable_def by (simp add: ls_init_def)
qed

lemma exited_stream_reachable: "ls_reachable exited_stream"
proof -
  let ?s1 = "\<lparr>ls = snd (StartJournalctlStream env_sh_only ''sys'' NewLogStreamer), stopping = []\<rparr>"
  have "ls_trans ?s1 (?s1\<lparr>ls := cleanupStream (ID (store (ls ?s1) ! 0)) (ls ?s1)\<rparr>)"
    by (rule ls_trans.natural_exit) (simp add: started_stream_eq)
  moreover have "?s1\<lparr>ls := cleanupStream (ID (store (ls ?s1) ! 0)) (ls ?s1)\<rparr> = exited_stream"
    by (simp add: exited_stream_def started_stream_eq)
  ultimately have "ls_trans ?s1 exited_stream" by simp
  with started_stream_reachable show ?thesis
    unfolding ls_reachable_def by (rule rtranclp.rtrancl_into_rtrancl)
qed

lemma stopped_stream_reachable: "ls_reachable stopped_stream"
proof -
  have "streams (snd (StartJournalctlStream env_sh_only ''sys'' NewLogStreamer)) ''sys'' = Some 0"
    by (simp add: started_stream_eq)
  from Stop_is_remove_then_teardown [OF this] started_stream_reachable show ?thesis
    unfolding ls_reachable_def stopped_stream_def by (rule rtranclp_trans [rotated])
qed

lemma one_session_eq:
  "one_session =
     \<lparr>sessions = [''s'' \<mapsto> 0],
      store_e = [\<lparr>id_e = ''s'', cmd_e = ''/bin/sh'', process_e = Some Running,
                  pty_e = Some Open, done_e = 0\<rparr>],
      goroutines_e = [ReadLoop 0, WaitLoop 0],
      onOutput = True, onExit = True, onError = True, invoked = []\<rparr>"
  by (simp add: one_session_def ExecManager_Start_def Start_check_def Start_spawn_def
      Start_register_def shellPath_def env_sh_only_def NewExecManager_def Let_def)

lemma Start_is_spawn_then_register:
  "em_trans\<^sup>*\<^sup>* \<lparr>em = m, starting_e = sg, stopping_e = sp\<rparr>
     \<lparr>em = snd (ExecManager_Start e sessionID shell m), starting_e = sg, stopping_e = sp\<rparr>"
proof (cases "Start_check sessionID m")
  case True
  then show ?thesis by (simp add: ExecManager_Start_def)
next
  case False
  obtain r m' where sp: "Start_spawn e sessionID shell m = (r, m')"
    by (cases "Start_spawn e sessionID shell m")
  show ?thesis
  proof (cases r)
    case (Inl err)
    with sp have "m' = m" by (auto simp add: Start_spawn_def Let_def split: if_splits)
    with False sp Inl show ?thesis by (simp add: ExecManager_Start_def)
  next
    case (Inr a)
    let ?s0 = "\<lparr>em = m, starting_e = sg, stopping_e = sp\<rparr>"
    let ?s1 = "\<lparr>em = m', starting_e = (sessionID, a) # sg, stopping_e = sp\<rparr>"
    let ?s2 = "\<lparr>em = Start_register sessionID a m', starting_e = sg, stopping_e = sp\<rparr>"
    have "em_trans ?s0 (?s0\<lparr>em := m', starting_e := (sessionID, a) # starting_e ?s0\<rparr>)"
      by (rule em_trans.spawn [of e sessionID shell]) (simp add: sp Inr)
    then have t1: "em_trans ?s0 ?s1" by simp
    have "em_trans ?s1 (?s1\<lparr>em := Start_register sessionID a (em ?s1),
                              starting_e := remove1 (sessionID, a) (starting_e ?s1)\<rparr>)"
      by (rule em_trans.register) simp
    then have t2: "em_trans ?s1 ?s2" by simp
    from t1 have "em_trans\<^sup>*\<^sup>* ?s0 ?s1" by (rule r_into_rtranclp)
    from this t2 have "em_trans\<^sup>*\<^sup>* ?s0 ?s2" by (rule rtranclp.rtrancl_into_rtrancl)
    with False sp Inr show ?thesis by (simp add: ExecManager_Start_def)
  qed
qed

lemma Stop_e_is_remove_then_teardown:
  "em_trans\<^sup>*\<^sup>* \<lparr>em = m, starting_e = sg, stopping_e = sp\<rparr>
     \<lparr>em = ExecManager_Stop sessionID m, starting_e = sg, stopping_e = sp\<rparr>"
proof (cases "sessions m sessionID")
  case None
  then show ?thesis by (simp add: ExecManager_Stop_def)
next
  case (Some a)
  let ?s0 = "\<lparr>em = m, starting_e = sg, stopping_e = sp\<rparr>"
  let ?m1 = "m\<lparr>sessions := (sessions m)(sessionID := None)\<rparr>"
  let ?s1 = "\<lparr>em = ?m1, starting_e = sg, stopping_e = a # sp\<rparr>"
  let ?s2 = "\<lparr>em = ?m1\<lparr>store_e := (store_e m)[a := teardown_e (store_e m ! a)]\<rparr>,
              starting_e = sg, stopping_e = sp\<rparr>"
  have "em_trans ?s0 (?s0\<lparr>em := (em ?s0)\<lparr>sessions := (sessions (em ?s0))(sessionID := None)\<rparr>,
                            stopping_e := a # stopping_e ?s0\<rparr>)"
    by (rule em_trans.stop_remove) (simp add: Some)
  then have t1: "em_trans ?s0 ?s1" by simp
  have "em_trans ?s1 (?s1\<lparr>em := (em ?s1)\<lparr>store_e := (store_e (em ?s1))
                                    [a := teardown_e (store_e (em ?s1) ! a)]\<rparr>,
                            stopping_e := remove1 a (stopping_e ?s1)\<rparr>)"
    by (rule em_trans.stop_teardown) simp
  then have t2: "em_trans ?s1 ?s2" by simp
  from t1 have "em_trans\<^sup>*\<^sup>* ?s0 ?s1" by (rule r_into_rtranclp)
  from this t2 have "em_trans\<^sup>*\<^sup>* ?s0 ?s2" by (rule rtranclp.rtrancl_into_rtrancl)
  then show ?thesis by (simp add: ExecManager_Stop_def Some)
qed

lemma stopped_session_reachable: "em_reachable stopped_session"
proof -
  have "em_trans\<^sup>*\<^sup>* (em_init True True True)
          \<lparr>em = one_session, starting_e = [], stopping_e = []\<rparr>"
    unfolding em_init_def one_session_def by (rule Start_is_spawn_then_register)
  moreover have "em_trans\<^sup>*\<^sup>* \<lparr>em = one_session, starting_e = [], stopping_e = []\<rparr>
          stopped_session"
    unfolding stopped_session_def by (rule Stop_e_is_remove_then_teardown)
  ultimately have "em_trans\<^sup>*\<^sup>* (em_init True True True) stopped_session"
    by (rule rtranclp_trans)
  then show ?thesis unfolding em_reachable_def by blast
qed

text \<open>
  C6 as stated fails on the natural exit of a command stream. The journal stream
  \<open>sys\<close> is started and its process ends; the waiter calls \<open>cleanupStream\<close>, which
  deletes the stream from the registry and does nothing else. The stream is out of the
  registry, no call is stopping it, and its done channel has never been closed.
\<close>

theorem natural_exit_leaves_done_open_counterexample:
  "ls_reachable exited_stream
   \<and> streams (ls exited_stream) ''sys'' = None
   \<and> stopping exited_stream = []
   \<and> ID (store (ls exited_stream) ! 0) = ''sys''
   \<and> done_ch (store (ls exited_stream) ! 0) = 0"
  using exited_stream_reachable
  by (simp add: exited_stream_def started_stream_eq cleanupStream_def)

lemma ls_reachable_step: "ls_reachable s \<Longrightarrow> ls_trans s s' \<Longrightarrow> ls_reachable s'"
  unfolding ls_reachable_def by (rule rtranclp.rtrancl_into_rtrancl)

lemma two_streams_reachable: "ls_reachable \<lparr>ls = two_streams, stopping = []\<rparr>"
proof -
  let ?l1 = "snd (StartJournalctlStream env_sh_only ''sys'' NewLogStreamer)"
  let ?l2 = "snd (StartAppLogStream ''app'' ?l1)"
  let ?s1 = "\<lparr>ls = ?l1, stopping = []\<rparr>"
  let ?s2 = "\<lparr>ls = ?l2, stopping = []\<rparr>"
  have "ls_trans ?s1 (?s1\<lparr>ls := snd (StartAppLogStream ''app'' (ls ?s1))\<rparr>)"
    by (rule ls_trans.app_log)
  then have "ls_trans ?s1 ?s2" by simp
  with started_stream_reachable have r2: "ls_reachable ?s2" by (rule ls_reachable_step)
  have "FileWorker 1 ''/tmp/strux-backend.log'' \<in> set (goroutines (ls ?s2))"
    by (simp add: started_stream_eq StartAppLogStream_def startFileStream_def alloc_def
        register_def Let_def)
  then have "ls_trans ?s2 (?s2\<lparr>ls := fileWorker_open True 1 (ls ?s2)\<rparr>)"
    by (rule ls_trans.file_open)
  then have "ls_trans ?s2 \<lparr>ls = two_streams, stopping = []\<rparr>"
    by (simp add: two_streams_def)
  with r2 show ?thesis by (rule ls_reachable_step)
qed

lemma stopping_stream_reachable: "ls_reachable stopping_stream"
proof -
  let ?s = "\<lparr>ls = two_streams, stopping = []\<rparr>"
  have "ls_trans ?s (?s\<lparr>ls := (ls ?s)\<lparr>streams := (streams (ls ?s))(''sys'' := None)\<rparr>,
                        stopping := 0 # stopping ?s\<rparr>)"
    by (rule ls_trans.stop_remove) (simp add: two_streams_eq)
  then have "ls_trans ?s stopping_stream" by (simp add: stopping_stream_def)
  with two_streams_reachable show ?thesis by (rule ls_reachable_step)
qed

lemma one_session_reachable:
  "em_reachable \<lparr>em = one_session, starting_e = [], stopping_e = []\<rparr>"
proof -
  have "em_trans\<^sup>*\<^sup>* (em_init True True True)
          \<lparr>em = one_session, starting_e = [], stopping_e = []\<rparr>"
    unfolding em_init_def one_session_def by (rule Start_is_spawn_then_register)
  then show ?thesis unfolding em_reachable_def by blast
qed

section \<open>What Stop and StopAll do to the units\<close>

lemma stop_stream_nth:
  "a < length (store l) \<Longrightarrow>
   store (stop_stream b l) ! a = (if a = b then teardown (store l ! a) else store l ! a)"
  by (simp add: stop_stream_def)

lemma fold_stop_stream_nth:
  "distinct as \<Longrightarrow> a < length (store l) \<Longrightarrow>
   store (fold stop_stream as l) ! a =
     (if a \<in> set as then teardown (store l ! a) else store l ! a)"
proof (induction as arbitrary: l)
  case Nil
  then show ?case by simp
next
  case (Cons x xs)
  from Cons.prems have d: "distinct xs" and nx: "x \<notin> set xs"
    and lt: "a < length (store (stop_stream x l))"
    by (simp_all add: stop_stream_length)
  from Cons.IH [OF d lt] nx Cons.prems(2) show ?case
    by (auto simp add: stop_stream_nth)
qed

lemma Stop_e_nth:
  "a < length (store_e m) \<Longrightarrow>
   store_e (ExecManager_Stop sessionID m) ! a =
     (if sessions m sessionID = Some a then teardown_e (store_e m ! a) else store_e m ! a)"
  by (auto simp add: ExecManager_Stop_def split: option.splits)

lemma fold_Stop_e_nth:
  assumes "\<forall>i j b. sessions m i = Some b \<and> sessions m j = Some b \<longrightarrow> i = j"
    and "a < length (store_e m)"
  shows "store_e (fold ExecManager_Stop ids m) ! a =
     (if \<exists>i\<in>set ids. sessions m i = Some a then teardown_e (store_e m ! a) else store_e m ! a)"
  using assms
proof (induction ids arbitrary: m)
  case Nil
  then show ?case by simp
next
  case (Cons x xs)
  let ?m' = "ExecManager_Stop x m"
  have inj': "\<forall>i j b. sessions ?m' i = Some b \<and> sessions ?m' j = Some b \<longrightarrow> i = j"
    using Cons.prems(1) by (simp add: Stop_e_sessions)
  have lt': "a < length (store_e ?m')" using Cons.prems(2) by (simp add: Stop_e_length)
  note IH = Cons.IH [OF inj' lt']
  show ?case
  proof (cases "sessions m x = Some a")
    case True
    have "\<not> (\<exists>i\<in>set xs. sessions ?m' i = Some a)"
      using Cons.prems(1) True by (auto simp add: Stop_e_sessions)
    with IH True Cons.prems(2) show ?thesis by (simp add: Stop_e_nth)
  next
    case False
    have "(\<exists>i\<in>set xs. sessions ?m' i = Some a) = (\<exists>i\<in>set xs. sessions m i = Some a)"
      using False by (auto simp add: Stop_e_sessions)
    with IH False Cons.prems(2) show ?thesis by (simp add: Stop_e_nth)
  qed
qed

lemma live_or_torn_step:
  assumes "em_trans s s'" and "em_inv s"
    and "\<forall>a<length (store_e (em s)). live_or_torn (store_e (em s) ! a)"
  shows "\<forall>a<length (store_e (em s')). live_or_torn (store_e (em s') ! a)"
  using assms(1)
proof (cases rule: em_trans.cases)
  case (spawn e sessionID shell b m')
  then obtain x where "store_e m' = store_e (em s) @ [x]" "live_or_torn x"
    by (auto simp add: Start_spawn_def Let_def live_or_torn_def split: if_splits)
  with assms(3) spawn show ?thesis by (auto simp add: nth_append less_Suc_eq)
next
  case (register sessionID b)
  with assms(3) show ?thesis by (simp add: Start_register_def)
next
  case (stop_remove sessionID b)
  with assms(3) show ?thesis by simp
next
  case (stop_teardown b)
  note D = em_invD [OF assms(2)]
  from D(4) [OF stop_teardown(2)] have b: "b < length (store_e (em s))"
    "done_e (store_e (em s) ! b) = 0" by simp_all
  with assms(3) have "live_or_torn (teardown_e (store_e (em s) ! b))"
    by (auto simp add: live_or_torn_def teardown_e_def)
  with assms(3) stop_teardown b show ?thesis by (simp add: nth_list_update)
next
  case (exit_callback b err)
  with assms(3) show ?thesis by simp
next
  case (read b r)
  have "store_e (snd (readLoop_read b r (em s))) = store_e (em s)"
    by (simp add: readLoop_read_def Let_def split: read_result.splits)
  with assms(3) read show ?thesis by simp
qed

lemma em_reachable_live_or_torn:
  assumes "em_reachable s"
  shows "\<forall>a<length (store_e (em s)). live_or_torn (store_e (em s) ! a)"
proof -
  from assms obtain out ex er where "em_trans\<^sup>*\<^sup>* (em_init out ex er) s"
    unfolding em_reachable_def by blast
  then show ?thesis
  proof (induction rule: rtranclp_induct)
    case base
    then show ?case by (simp add: em_init_def NewExecManager_def)
  next
    case (step y z)
    have "em_reachable y" using step.hyps(1) unfolding em_reachable_def by blast
    from live_or_torn_step [OF step.hyps(2) em_reachable_inv [OF this] step.IH]
    show ?case .
  qed
qed

lemma em_registered_is_live:
  assumes "em_reachable s" and "sessions (em s) sessionID = Some a"
  shows "a < length (store_e (em s)) \<and> done_e (store_e (em s) ! a) = 0
         \<and> process_e (store_e (em s) ! a) = Some Running
         \<and> pty_e (store_e (em s) ! a) = Some Open"
proof -
  from em_invD(1) [OF em_reachable_inv [OF assms(1)] assms(2)]
  have lt: "a < length (store_e (em s))" and z: "done_e (store_e (em s) ! a) = 0" by simp_all
  from em_reachable_live_or_torn [OF assms(1)] lt
  have "live_or_torn (store_e (em s) ! a)" by blast
  with lt z show ?thesis by (simp add: live_or_torn_def)
qed

section \<open>The wait loop reports the exit and tears the session down\<close>

text \<open>
  C1, amended. In every reachable state of the Exec Manager with an exit callback, the
  wait loop of a session whose process has ended invokes the callback exactly once,
  with the session's identifier and the exit code: the process's own exit code when it
  exited (0 for a clean exit), \<open>-1\<close> when a signal killed it, and 1 when \<open>Wait\<close>
  failed with an error that is not an \<open>ExitError\<close>. After the callback, a session
  that is still in the registry is removed from it and torn down: its done channel is
  closed, its process killed and its pty closed. When \<open>Stop\<close> has already removed
  the session and nothing is registered under its identifier, the wait loop changes
  neither the registry nor any session.
\<close>

theorem waitLoop_reports_and_tears_down:
  assumes "em_reachable t" and "onExit (em t)"
  shows
    "invoked (waitLoop a (cmd_Wait w) (em t)) =
       invoked (em t) @ [Exit (id_e (store_e (em t) ! a))
                      (case w of Exited c \<Rightarrow> int c | Signaled sig \<Rightarrow> - 1 | WaitFailed \<Rightarrow> 1)]
     \<and> (sessions (em t) (id_e (store_e (em t) ! a)) = Some a \<longrightarrow>
          sessions (waitLoop a (cmd_Wait w) (em t)) (id_e (store_e (em t) ! a)) = None
          \<and> done_e (store_e (waitLoop a (cmd_Wait w) (em t)) ! a) = 1
          \<and> process_e (store_e (waitLoop a (cmd_Wait w) (em t)) ! a) = Some Killed
          \<and> pty_e (store_e (waitLoop a (cmd_Wait w) (em t)) ! a) = Some Closed)
     \<and> (sessions (em t) (id_e (store_e (em t) ! a)) = None \<longrightarrow>
          sessions (waitLoop a (cmd_Wait w) (em t)) = sessions (em t)
          \<and> store_e (waitLoop a (cmd_Wait w) (em t)) = store_e (em t))"
proof -
  let ?sid = "id_e (store_e (em t) ! a)"
  let ?m' = "(em t)\<lparr>invoked := invoked (em t) @ [Exit ?sid (exitCode (cmd_Wait w))]\<rparr>"
  have w: "waitLoop a (cmd_Wait w) (em t) = ExecManager_Stop ?sid ?m'"
    using assms(2) by (simp add: waitLoop_def Let_def)
  have c: "exitCode (cmd_Wait w) =
             (case w of Exited c \<Rightarrow> int c | Signaled sig \<Rightarrow> - 1 | WaitFailed \<Rightarrow> 1)"
    by (cases w) (simp_all add: cmd_Wait_def exitCode_def)
  have i: "invoked (ExecManager_Stop sessionID m') = invoked m'" for sessionID m'
    by (simp add: ExecManager_Stop_def split: option.splits)
  have p1: "invoked (waitLoop a (cmd_Wait w) (em t)) =
       invoked (em t) @ [Exit ?sid
                      (case w of Exited c \<Rightarrow> int c | Signaled sig \<Rightarrow> - 1 | WaitFailed \<Rightarrow> 1)]"
    by (simp add: w i c)
  have p2: "sessions (waitLoop a (cmd_Wait w) (em t)) ?sid = None
          \<and> done_e (store_e (waitLoop a (cmd_Wait w) (em t)) ! a) = 1
          \<and> process_e (store_e (waitLoop a (cmd_Wait w) (em t)) ! a) = Some Killed
          \<and> pty_e (store_e (waitLoop a (cmd_Wait w) (em t)) ! a) = Some Closed"
    if r: "sessions (em t) ?sid = Some a"
  proof -
    note L = em_registered_is_live [OF assms(1) r]
    from L r show ?thesis
      by (simp add: w ExecManager_Stop_def teardown_e_def)
  qed
  have p3: "sessions (waitLoop a (cmd_Wait w) (em t)) = sessions (em t)
          \<and> store_e (waitLoop a (cmd_Wait w) (em t)) = store_e (em t)"
    if "sessions (em t) ?sid = None"
    using that by (simp add: w ExecManager_Stop_def)
  from p1 p2 p3 show ?thesis by blast
qed

theorem waitLoop_reports_and_tears_down_witness:
  "em_reachable \<lparr>em = one_session, starting_e = [], stopping_e = []\<rparr>
   \<and> onExit one_session
   \<and> sessions one_session (id_e (store_e one_session ! 0)) = Some 0
   \<and> invoked (waitLoop 0 (cmd_Wait (Exited 3)) one_session) = [Exit ''s'' 3]
   \<and> sessions (waitLoop 0 (cmd_Wait (Exited 3)) one_session) ''s'' = None
   \<and> done_e (store_e (waitLoop 0 (cmd_Wait (Exited 3)) one_session) ! 0) = 1
   \<and> process_e (store_e (waitLoop 0 (cmd_Wait (Exited 3)) one_session) ! 0) = Some Killed
   \<and> pty_e (store_e (waitLoop 0 (cmd_Wait (Exited 3)) one_session) ! 0) = Some Closed
   \<and> em_reachable stopped_session
   \<and> sessions (em stopped_session) (id_e (store_e (em stopped_session) ! 0)) = None
   \<and> store_e (waitLoop 0 (cmd_Wait (Signaled 9)) (em stopped_session)) =
       store_e (em stopped_session)"
proof -
  have h: "onExit (em \<lparr>em = one_session, starting_e = [], stopping_e = []\<rparr>)"
    and r: "sessions one_session (id_e (store_e one_session ! 0)) = Some 0"
    by (simp_all add: one_session_eq)
  have h': "onExit (em stopped_session)"
    and r': "sessions (em stopped_session) (id_e (store_e (em stopped_session) ! 0)) = None"
    by (simp_all add: stopped_session_def one_session_eq ExecManager_Stop_def teardown_e_def)
  from waitLoop_reports_and_tears_down [OF one_session_reachable h, of 0 "Exited 3"] r
  have a: "invoked (waitLoop 0 (cmd_Wait (Exited 3)) one_session) = [Exit ''s'' 3]
   \<and> sessions (waitLoop 0 (cmd_Wait (Exited 3)) one_session) ''s'' = None
   \<and> done_e (store_e (waitLoop 0 (cmd_Wait (Exited 3)) one_session) ! 0) = 1
   \<and> process_e (store_e (waitLoop 0 (cmd_Wait (Exited 3)) one_session) ! 0) = Some Killed
   \<and> pty_e (store_e (waitLoop 0 (cmd_Wait (Exited 3)) one_session) ! 0) = Some Closed"
    by (simp add: one_session_eq)
  from waitLoop_reports_and_tears_down [OF stopped_session_reachable h', of 0 "Signaled 9"] r'
  have b: "store_e (waitLoop 0 (cmd_Wait (Signaled 9)) (em stopped_session)) =
       store_e (em stopped_session)"
    by simp
  from one_session_reachable h r a stopped_session_reachable r' b show ?thesis by simp
qed

section \<open>The done channel is closed exactly once by Stop and StopAll\<close>

lemma ls_Stop_closes_once:
  assumes "ls_inv s" and "streams (ls s) streamID = Some a"
  shows "done_ch (store (LogStreamer_Stop streamID (ls s)) ! a) = 1"
proof -
  from assms have "a < length (store (ls s))" "done_ch (store (ls s) ! a) = 0"
    by (auto simp add: ls_inv_def)
  with assms(2) show ?thesis
    by (simp add: LogStreamer_Stop_def stop_stream_def done_ch_teardown)
qed

lemma ls_StopAll_closes_once:
  assumes "ls_inv s" and "distinct ids" and "set ids = dom (streams (ls s))"
    and "streams (ls s) streamID = Some a"
  shows "done_ch (store (LogStreamer_StopAll ids (ls s)) ! a) = 1"
proof -
  from assms(1,4) have lt: "a < length (store (ls s))" and z: "done_ch (store (ls s) ! a) = 0"
    by (auto simp add: ls_inv_def)
  have d: "distinct (List.map_filter (streams (ls s)) ids)"
    using assms(2)
  proof (rule distinct_map_filter_inj)
    fix x y b
    assume "streams (ls s) x = Some b" "streams (ls s) y = Some b"
    with assms(1) show "x = y" unfolding ls_inv_def by blast
  qed
  from assms(3,4) have "streamID \<in> set ids" by auto
  then have i: "a \<in> set (List.map_filter (streams (ls s)) ids)"
    using assms(4) by (rule in_map_filter)
  have "store (LogStreamer_StopAll ids (ls s)) ! a = teardown (store (ls s) ! a)"
    unfolding LogStreamer_StopAll_def using fold_stop_stream_nth [OF d, of a "(ls s)\<lparr>streams := Map.empty\<rparr>"] lt i
    by simp
  with z show ?thesis by (simp add: done_ch_teardown)
qed

lemma ls_teardown_closes_for_ever:
  assumes "ls_inv s" and "a \<in> set (stopping s)"
    and "ls_trans\<^sup>*\<^sup>* (s\<lparr>ls := stop_stream a (ls s), stopping := remove1 a (stopping s)\<rparr>) s''"
  shows "done_ch (store (ls s'') ! a) = 1"
proof -
  let ?s1 = "s\<lparr>ls := stop_stream a (ls s), stopping := remove1 a (stopping s)\<rparr>"
  from assms(1,2) have lt: "a < length (store (ls s))" and z: "done_ch (store (ls s) ! a) = 0"
    and d: "distinct (stopping s)"
    by (auto simp add: ls_inv_def)
  from assms(1,2) have nr: "\<forall>i. streams (ls s) i \<noteq> Some a"
    by (auto simp add: ls_inv_def)
  have i1: "ls_inv ?s1" using assms(1,2) by (rule ls_inv_stop_teardown)
  have l1: "a < length (store (ls ?s1))" using lt by (simp add: stop_stream_length)
  have r1: "\<forall>i. streams (ls ?s1) i \<noteq> Some a" using nr by (simp add: stop_stream_streams)
  have p1: "a \<notin> set (stopping ?s1)" using d by simp
  have d1: "done_ch (store (ls ?s1) ! a) = 1"
    using lt z by (simp add: stop_stream_nth done_ch_teardown)
  from ls_orphan_forever [OF assms(3) i1 l1 r1 p1] d1 show ?thesis by simp
qed

lemma ls_cleanup_never_closes:
  assumes "ls_inv s" and "streams (ls s) streamID = Some a"
    and "ls_trans\<^sup>*\<^sup>* (s\<lparr>ls := cleanupStream streamID (ls s)\<rparr>) s''"
  shows "done_ch (store (ls s'') ! a) = 0"
proof -
  let ?s1 = "s\<lparr>ls := cleanupStream streamID (ls s)\<rparr>"
  from assms(1,2) have lt: "a < length (store (ls s))" and z: "done_ch (store (ls s) ! a) = 0"
    and p: "a \<notin> set (stopping s)"
    by (auto simp add: ls_inv_def)
  have inj: "streams (ls s) i = Some a \<Longrightarrow> i = streamID" for i
    using assms(1,2) unfolding ls_inv_def by blast
  have i1: "ls_inv ?s1" using assms(1) by (rule ls_inv_cleanup)
  have l1: "a < length (store (ls ?s1))" using lt by (simp add: cleanupStream_def)
  have r1: "\<forall>i. streams (ls ?s1) i \<noteq> Some a"
    using inj by (auto simp add: cleanupStream_def)
  have p1: "a \<notin> set (stopping ?s1)" using p by simp
  have d1: "done_ch (store (ls ?s1) ! a) = 0" using z by (simp add: cleanupStream_def)
  from ls_orphan_forever [OF assms(3) i1 l1 r1 p1] d1 show ?thesis by simp
qed

lemma em_Stop_closes_once:
  assumes "em_inv t" and "sessions (em t) sessionID = Some a"
  shows "done_e (store_e (ExecManager_Stop sessionID (em t)) ! a) = 1"
proof -
  from em_invD(1) [OF assms] have "a < length (store_e (em t))"
    "done_e (store_e (em t) ! a) = 0" by simp_all
  with assms(2) show ?thesis by (simp add: Stop_e_nth teardown_e_def)
qed

lemma em_StopAll_closes_once:
  assumes "em_inv t" and "set ids = dom (sessions (em t))"
    and "sessions (em t) sessionID = Some a"
  shows "done_e (store_e (ExecManager_StopAll ids (em t)) ! a) = 1"
proof -
  from em_invD(1) [OF assms(1,3)] have lt: "a < length (store_e (em t))"
    and z: "done_e (store_e (em t) ! a) = 0" by simp_all
  have inj: "\<forall>i j b. sessions (em t) i = Some b \<and> sessions (em t) j = Some b \<longrightarrow> i = j"
    using em_invD(2) [OF assms(1)] by blast
  from assms(2,3) have "\<exists>i\<in>set ids. sessions (em t) i = Some a" by auto
  with fold_Stop_e_nth [OF inj lt, of ids] z show ?thesis
    by (simp add: ExecManager_StopAll_def teardown_e_def)
qed

lemma em_waitLoop_closes_once:
  assumes "em_inv t" and "sessions (em t) (id_e (store_e (em t) ! a)) = Some a"
  shows "done_e (store_e (waitLoop a err (em t)) ! a) = 1"
proof -
  from em_invD(1) [OF assms] have "a < length (store_e (em t))"
    "done_e (store_e (em t) ! a) = 0" by simp_all
  with assms(2) show ?thesis
    by (simp add: waitLoop_def Let_def ExecManager_Stop_def teardown_e_def)
qed

lemma em_teardown_closes_for_ever:
  assumes "em_inv t" and "a \<in> set (stopping_e t)"
    and "em_trans\<^sup>*\<^sup>* (t\<lparr>em := (em t)\<lparr>store_e := (store_e (em t))
                                      [a := teardown_e (store_e (em t) ! a)]\<rparr>,
                         stopping_e := remove1 a (stopping_e t)\<rparr>) t''"
  shows "done_e (store_e (em t'') ! a) = 1"
proof -
  let ?t1 = "t\<lparr>em := (em t)\<lparr>store_e := (store_e (em t))
                                      [a := teardown_e (store_e (em t) ! a)]\<rparr>,
                stopping_e := remove1 a (stopping_e t)\<rparr>"
  note D = em_invD [OF assms(1)]
  from D(4) [OF assms(2)] have lt: "a < length (store_e (em t))"
    and ns: "a \<notin> snd ` set (starting_e t)" and z: "done_e (store_e (em t) ! a) = 0"
    by simp_all
  have nr: "\<forall>i. sessions (em t) i \<noteq> Some a"
    using D(1) assms(2) by blast
  have i1: "em_inv ?t1" using assms(1,2) by (rule em_inv_stop_teardown)
  have l1: "a < length (store_e (em ?t1))" using lt by simp
  have r1: "\<forall>i. sessions (em ?t1) i \<noteq> Some a" using nr by simp
  have p1: "a \<notin> set (stopping_e ?t1)" using D(3) by simp
  have q1: "a \<notin> snd ` set (starting_e ?t1)" using ns by simp
  have d1: "done_e (store_e (em ?t1) ! a) = 1" using lt z by (simp add: teardown_e_def)
  from em_orphan_forever [OF assms(3) i1 l1 r1 p1 q1] d1 show ?thesis by simp
qed

text \<open>
  C6, amended. In every reachable state of either manager, under any interleaving of the
  calls: no done channel has been closed more than once; a registered unit's done channel
  is open, and \<open>Stop\<close> of its identifier, \<open>StopAll\<close>, and for an exec session the
  \<open>Stop\<close> that its wait loop runs on natural exit, each leave it closed exactly once;
  once the removing call has torn the unit down, its done channel stays closed exactly
  once whatever runs afterwards; and a step closes a done channel only as the teardown
  of a call that has removed the unit from the registry. The exception is
  \<open>cleanupStream\<close>, the path of a command log stream whose process exits naturally: it
  removes the registered stream without closing its done channel, and nothing that runs
  afterwards closes it.
\<close>

theorem done_closed_exactly_once_by_the_remover:
  assumes "ls_reachable s" and "em_reachable t"
  shows
    "(\<forall>a<length (store (ls s)). done_ch (store (ls s) ! a) \<le> 1)
     \<and> (\<forall>streamID a. streams (ls s) streamID = Some a \<longrightarrow>
           done_ch (store (ls s) ! a) = 0
           \<and> done_ch (store (LogStreamer_Stop streamID (ls s)) ! a) = 1
           \<and> (\<forall>ids. distinct ids \<and> set ids = dom (streams (ls s)) \<longrightarrow>
                 done_ch (store (LogStreamer_StopAll ids (ls s)) ! a) = 1)
           \<and> (\<forall>s''. ls_trans\<^sup>*\<^sup>* (s\<lparr>ls := cleanupStream streamID (ls s)\<rparr>) s'' \<longrightarrow>
                 done_ch (store (ls s'') ! a) = 0))
     \<and> (\<forall>a\<in>set (stopping s). \<forall>s''.
           ls_trans\<^sup>*\<^sup>* (s\<lparr>ls := stop_stream a (ls s), stopping := remove1 a (stopping s)\<rparr>) s''
           \<longrightarrow> done_ch (store (ls s'') ! a) = 1)
     \<and> (\<forall>s' a. ls_trans s s' \<and> a < length (store (ls s))
            \<and> done_ch (store (ls s') ! a) \<noteq> done_ch (store (ls s) ! a) \<longrightarrow>
          a \<in> set (stopping s) \<and> (\<forall>streamID. streams (ls s) streamID \<noteq> Some a)
          \<and> done_ch (store (ls s') ! a) = 1)
     \<and> (\<forall>a<length (store_e (em t)). done_e (store_e (em t) ! a) \<le> 1)
     \<and> (\<forall>sessionID a. sessions (em t) sessionID = Some a \<longrightarrow>
           done_e (store_e (em t) ! a) = 0
           \<and> done_e (store_e (ExecManager_Stop sessionID (em t)) ! a) = 1
           \<and> (\<forall>ids. set ids = dom (sessions (em t)) \<longrightarrow>
                 done_e (store_e (ExecManager_StopAll ids (em t)) ! a) = 1)
           \<and> (sessionID = id_e (store_e (em t) ! a) \<longrightarrow>
                 (\<forall>err. done_e (store_e (waitLoop a err (em t)) ! a) = 1)))
     \<and> (\<forall>a\<in>set (stopping_e t). \<forall>t''.
           em_trans\<^sup>*\<^sup>* (t\<lparr>em := (em t)\<lparr>store_e := (store_e (em t))
                                          [a := teardown_e (store_e (em t) ! a)]\<rparr>,
                             stopping_e := remove1 a (stopping_e t)\<rparr>) t''
           \<longrightarrow> done_e (store_e (em t'') ! a) = 1)
     \<and> (\<forall>t' a. em_trans t t' \<and> a < length (store_e (em t))
            \<and> done_e (store_e (em t') ! a) \<noteq> done_e (store_e (em t) ! a) \<longrightarrow>
          a \<in> set (stopping_e t) \<and> (\<forall>sessionID. sessions (em t) sessionID \<noteq> Some a)
          \<and> done_e (store_e (em t') ! a) = 1)"
proof -
  note li = ls_reachable_inv [OF assms(1)]
  note ei = em_reachable_inv [OF assms(2)]
  have l1: "\<forall>a<length (store (ls s)). done_ch (store (ls s) ! a) \<le> 1"
    using li unfolding ls_inv_def by blast
  have l2: "\<forall>streamID a. streams (ls s) streamID = Some a \<longrightarrow>
           done_ch (store (ls s) ! a) = 0
           \<and> done_ch (store (LogStreamer_Stop streamID (ls s)) ! a) = 1
           \<and> (\<forall>ids. distinct ids \<and> set ids = dom (streams (ls s)) \<longrightarrow>
                 done_ch (store (LogStreamer_StopAll ids (ls s)) ! a) = 1)
           \<and> (\<forall>s''. ls_trans\<^sup>*\<^sup>* (s\<lparr>ls := cleanupStream streamID (ls s)\<rparr>) s'' \<longrightarrow>
                 done_ch (store (ls s'') ! a) = 0)"
  proof (intro allI impI conjI)
    fix streamID a assume r: "streams (ls s) streamID = Some a"
    show "done_ch (store (ls s) ! a) = 0" using li r by (auto simp add: ls_inv_def)
    show "done_ch (store (LogStreamer_Stop streamID (ls s)) ! a) = 1"
      using li r by (rule ls_Stop_closes_once)
    show "done_ch (store (LogStreamer_StopAll ids (ls s)) ! a) = 1"
      if "distinct ids \<and> set ids = dom (streams (ls s))" for ids
      using ls_StopAll_closes_once [OF li _ _ r, of ids] that by simp
    show "done_ch (store (ls s'') ! a) = 0"
      if "ls_trans\<^sup>*\<^sup>* (s\<lparr>ls := cleanupStream streamID (ls s)\<rparr>) s''" for s''
      using li r that by (rule ls_cleanup_never_closes)
  qed
  have l3: "\<forall>a\<in>set (stopping s). \<forall>s''.
           ls_trans\<^sup>*\<^sup>* (s\<lparr>ls := stop_stream a (ls s), stopping := remove1 a (stopping s)\<rparr>) s''
           \<longrightarrow> done_ch (store (ls s'') ! a) = 1"
    using ls_teardown_closes_for_ever [OF li] by (intro ballI allI impI)
  have l4: "\<forall>s' a. ls_trans s s' \<and> a < length (store (ls s))
            \<and> done_ch (store (ls s') ! a) \<noteq> done_ch (store (ls s) ! a) \<longrightarrow>
          a \<in> set (stopping s) \<and> (\<forall>streamID. streams (ls s) streamID \<noteq> Some a)
          \<and> done_ch (store (ls s') ! a) = 1"
  proof (intro allI impI, elim conjE)
    fix s' a
    assume "ls_trans s s'" and "a < length (store (ls s))"
      and "done_ch (store (ls s') ! a) \<noteq> done_ch (store (ls s) ! a)"
    then show "a \<in> set (stopping s) \<and> (\<forall>streamID. streams (ls s) streamID \<noteq> Some a)
          \<and> done_ch (store (ls s') ! a) = 1"
      using ls_done_changes [OF _ li, of s' a] by simp
  qed
  have e1: "\<forall>a<length (store_e (em t)). done_e (store_e (em t) ! a) \<le> 1"
    using em_invD(7) [OF ei] by blast
  have e2: "\<forall>sessionID a. sessions (em t) sessionID = Some a \<longrightarrow>
           done_e (store_e (em t) ! a) = 0
           \<and> done_e (store_e (ExecManager_Stop sessionID (em t)) ! a) = 1
           \<and> (\<forall>ids. set ids = dom (sessions (em t)) \<longrightarrow>
                 done_e (store_e (ExecManager_StopAll ids (em t)) ! a) = 1)
           \<and> (sessionID = id_e (store_e (em t) ! a) \<longrightarrow>
                 (\<forall>err. done_e (store_e (waitLoop a err (em t)) ! a) = 1))"
  proof (intro allI impI conjI)
    fix sessionID a assume r: "sessions (em t) sessionID = Some a"
    show "done_e (store_e (em t) ! a) = 0" using em_invD(1) [OF ei r] by simp
    show "done_e (store_e (ExecManager_Stop sessionID (em t)) ! a) = 1"
      using ei r by (rule em_Stop_closes_once)
    show "done_e (store_e (ExecManager_StopAll ids (em t)) ! a) = 1"
      if "set ids = dom (sessions (em t))" for ids
      using ei that r by (rule em_StopAll_closes_once)
    show "done_e (store_e (waitLoop a err (em t)) ! a) = 1"
      if "sessionID = id_e (store_e (em t) ! a)" for err
      using em_waitLoop_closes_once [OF ei, of a err] r that by simp
  qed
  have e3: "\<forall>a\<in>set (stopping_e t). \<forall>t''.
           em_trans\<^sup>*\<^sup>* (t\<lparr>em := (em t)\<lparr>store_e := (store_e (em t))
                                          [a := teardown_e (store_e (em t) ! a)]\<rparr>,
                             stopping_e := remove1 a (stopping_e t)\<rparr>) t''
           \<longrightarrow> done_e (store_e (em t'') ! a) = 1"
    using em_teardown_closes_for_ever [OF ei] by (intro ballI allI impI)
  have e4: "\<forall>t' a. em_trans t t' \<and> a < length (store_e (em t))
            \<and> done_e (store_e (em t') ! a) \<noteq> done_e (store_e (em t) ! a) \<longrightarrow>
          a \<in> set (stopping_e t) \<and> (\<forall>sessionID. sessions (em t) sessionID \<noteq> Some a)
          \<and> done_e (store_e (em t') ! a) = 1"
  proof (intro allI impI, elim conjE)
    fix t' a
    assume "em_trans t t'" and "a < length (store_e (em t))"
      and "done_e (store_e (em t') ! a) \<noteq> done_e (store_e (em t) ! a)"
    then show "a \<in> set (stopping_e t) \<and> (\<forall>sessionID. sessions (em t) sessionID \<noteq> Some a)
          \<and> done_e (store_e (em t') ! a) = 1"
      using em_done_changes [OF _ ei, of t' a] by simp
  qed
  from l1 l2 l3 l4 e1 e2 e3 e4 show ?thesis by (intro conjI)
qed

theorem done_closed_exactly_once_by_the_remover_witness:
  "ls_reachable stopping_stream
   \<and> em_reachable \<lparr>em = one_session, starting_e = [], stopping_e = []\<rparr>
   \<and> done_ch (store (ls stopping_stream) ! 0) \<le> 1
   \<and> streams (ls stopping_stream) ''app'' = Some 1
   \<and> done_ch (store (ls stopping_stream) ! 1) = 0
   \<and> done_ch (store (LogStreamer_Stop ''app'' (ls stopping_stream)) ! 1) = 1
   \<and> distinct [''app''] \<and> set [''app''] = dom (streams (ls stopping_stream))
   \<and> done_ch (store (LogStreamer_StopAll [''app''] (ls stopping_stream)) ! 1) = 1
   \<and> done_ch (store (cleanupStream ''app'' (ls stopping_stream)) ! 1) = 0
   \<and> 0 \<in> set (stopping stopping_stream)
   \<and> done_ch (store (ls stopping_stream) ! 0) = 0
   \<and> done_ch (store (stop_stream 0 (ls stopping_stream)) ! 0) = 1
   \<and> ls_trans stopping_stream
        (stopping_stream\<lparr>ls := stop_stream 0 (ls stopping_stream),
                           stopping := remove1 0 (stopping stopping_stream)\<rparr>)
   \<and> sessions one_session ''s'' = Some 0
   \<and> done_e (store_e one_session ! 0) = 0
   \<and> done_e (store_e (ExecManager_Stop ''s'' one_session) ! 0) = 1
   \<and> set [''s''] = dom (sessions one_session)
   \<and> done_e (store_e (ExecManager_StopAll [''s''] one_session) ! 0) = 1
   \<and> done_e (store_e (waitLoop 0 (cmd_Wait (Exited 0)) one_session) ! 0) = 1"
proof -
  note T = done_closed_exactly_once_by_the_remover
    [OF stopping_stream_reachable one_session_reachable]
  have len: "0 < length (store (ls stopping_stream))"
    and app: "streams (ls stopping_stream) ''app'' = Some 1"
    and ids: "distinct [''app''] \<and> set [''app''] = dom (streams (ls stopping_stream))"
    and st: "0 \<in> set (stopping stopping_stream)"
    and z: "done_ch (store (ls stopping_stream) ! 0) = 0"
    by (auto simp add: stopping_stream_def two_streams_eq split: if_splits)
  have tr: "ls_trans stopping_stream
        (stopping_stream\<lparr>ls := stop_stream 0 (ls stopping_stream),
                           stopping := remove1 0 (stopping stopping_stream)\<rparr>)"
    using st by (rule ls_trans.stop_teardown)
  have se: "sessions (em \<lparr>em = one_session, starting_e = [], stopping_e = []\<rparr>) ''s'' = Some 0"
    and ide: "set [''s''] = dom (sessions (em \<lparr>em = one_session, starting_e = [], stopping_e = []\<rparr>))"
    and sid: "''s'' = id_e (store_e (em \<lparr>em = one_session, starting_e = [], stopping_e = []\<rparr>) ! 0)"
    by (auto simp add: one_session_eq split: if_splits)
  note T1 = T [THEN conjunct1, rule_format, OF len]
  note T2 = T [THEN conjunct2, THEN conjunct1, rule_format, OF app]
  note T3 = T [THEN conjunct2, THEN conjunct2, THEN conjunct1, rule_format, OF st]
  note T6 = T [THEN conjunct2, THEN conjunct2, THEN conjunct2, THEN conjunct2, THEN conjunct2,
               THEN conjunct1, rule_format, OF se]
  from T2 have a0: "done_ch (store (ls stopping_stream) ! 1) = 0"
    and a1: "done_ch (store (LogStreamer_Stop ''app'' (ls stopping_stream)) ! 1) = 1"
    by simp_all
  from T2 [THEN conjunct2, THEN conjunct2, THEN conjunct1, rule_format, OF ids]
  have a2: "done_ch (store (LogStreamer_StopAll [''app''] (ls stopping_stream)) ! 1) = 1" .
  from T2 [THEN conjunct2, THEN conjunct2, THEN conjunct2, rule_format,
           of "stopping_stream\<lparr>ls := cleanupStream ''app'' (ls stopping_stream)\<rparr>"]
  have a3: "done_ch (store (cleanupStream ''app'' (ls stopping_stream)) ! 1) = 0" by simp
  from T3 [of "stopping_stream\<lparr>ls := stop_stream 0 (ls stopping_stream),
                           stopping := remove1 0 (stopping stopping_stream)\<rparr>"]
  have a4: "done_ch (store (stop_stream 0 (ls stopping_stream)) ! 0) = 1" by simp
  from T6 have b0: "done_e (store_e one_session ! 0) = 0"
    and b1: "done_e (store_e (ExecManager_Stop ''s'' one_session) ! 0) = 1"
    by simp_all
  from T6 [THEN conjunct2, THEN conjunct2, THEN conjunct1, rule_format, OF ide]
  have b2: "done_e (store_e (ExecManager_StopAll [''s''] one_session) ! 0) = 1" by simp
  from T6 [THEN conjunct2, THEN conjunct2, THEN conjunct2, rule_format, OF sid,
           of "cmd_Wait (Exited 0)"]
  have b3: "done_e (store_e (waitLoop 0 (cmd_Wait (Exited 0)) one_session) ! 0) = 1" by simp
  from stopping_stream_reachable one_session_reachable T1 app a0 a1 ids a2 a3 st z a4 tr
    se b0 b1 ide b2 b3
  show ?thesis by simp
qed

section \<open>StopAll and the units outside the registry\<close>

text \<open>
  \<open>StopAll\<close> empties the registry and stops every unit that was in it: the process
  of a session is killed and its pty closed, a running process of a stream is killed and
  an open file of a stream closed.
\<close>

lemma StopAll_stops_registered_units:
  assumes "ls_reachable s" and "distinct ids'" and "set ids' = dom (streams (ls s))"
    and "em_reachable t" and "set ids = dom (sessions (em t))"
  shows
    "dom (sessions (ExecManager_StopAll ids (em t))) = {}
     \<and> (\<forall>sessionID a. sessions (em t) sessionID = Some a \<longrightarrow>
           process_e (store_e (em t) ! a) = Some Running
           \<and> pty_e (store_e (em t) ! a) = Some Open
           \<and> process_e (store_e (ExecManager_StopAll ids (em t)) ! a) = Some Killed
           \<and> pty_e (store_e (ExecManager_StopAll ids (em t)) ! a) = Some Closed)
     \<and> dom (streams (LogStreamer_StopAll ids' (ls s))) = {}
     \<and> (\<forall>streamID a. streams (ls s) streamID = Some a \<longrightarrow>
           (process (store (ls s) ! a) = Some Running \<longrightarrow>
              process (store (LogStreamer_StopAll ids' (ls s)) ! a) = Some Killed)
           \<and> (file_h (store (ls s) ! a) = Some Open \<longrightarrow>
              file_h (store (LogStreamer_StopAll ids' (ls s)) ! a) = Some Closed))"
proof -
  note li = ls_reachable_inv [OF assms(1)]
  note ei = em_reachable_inv [OF assms(4)]
  have e1: "dom (sessions (ExecManager_StopAll ids (em t))) = {}"
    using assms(5) by (simp add: StopAll_e_sessions)
  have e2: "process_e (store_e (em t) ! a) = Some Running
           \<and> pty_e (store_e (em t) ! a) = Some Open
           \<and> process_e (store_e (ExecManager_StopAll ids (em t)) ! a) = Some Killed
           \<and> pty_e (store_e (ExecManager_StopAll ids (em t)) ! a) = Some Closed"
    if r: "sessions (em t) sessionID = Some a" for sessionID a
  proof -
    note L = em_registered_is_live [OF assms(4) r]
    have inj: "\<forall>i j b. sessions (em t) i = Some b \<and> sessions (em t) j = Some b \<longrightarrow> i = j"
      using em_invD(2) [OF ei] by blast
    from assms(5) r have "\<exists>i\<in>set ids. sessions (em t) i = Some a" by auto
    with fold_Stop_e_nth [OF inj, of a ids] L show ?thesis
      by (simp add: ExecManager_StopAll_def teardown_e_def)
  qed
  have l1: "dom (streams (LogStreamer_StopAll ids' (ls s))) = {}"
    by (simp add: StopAll_streams)
  have l2: "(process (store (ls s) ! a) = Some Running \<longrightarrow>
              process (store (LogStreamer_StopAll ids' (ls s)) ! a) = Some Killed)
           \<and> (file_h (store (ls s) ! a) = Some Open \<longrightarrow>
              file_h (store (LogStreamer_StopAll ids' (ls s)) ! a) = Some Closed)"
    if r: "streams (ls s) streamID = Some a" for streamID a
  proof -
    from li r have lt: "a < length (store (ls s))" and ci: "cmd_inv (store (ls s) ! a)"
      by (auto simp add: ls_inv_def)
    have d: "distinct (List.map_filter (streams (ls s)) ids')"
      using assms(2)
    proof (rule distinct_map_filter_inj)
      fix x y b
      assume "streams (ls s) x = Some b" "streams (ls s) y = Some b"
      with li show "x = y" unfolding ls_inv_def by blast
    qed
    from assms(3) r have "streamID \<in> set ids'" by auto
    then have i: "a \<in> set (List.map_filter (streams (ls s)) ids')"
      using r by (rule in_map_filter)
    have "store (LogStreamer_StopAll ids' (ls s)) ! a = teardown (store (ls s) ! a)"
      unfolding LogStreamer_StopAll_def
      using fold_stop_stream_nth [OF d, of a "(ls s)\<lparr>streams := Map.empty\<rparr>"] lt i
      by simp
    with ci show ?thesis by (auto simp add: teardown_def cmd_inv_def)
  qed
  from e1 e2 l1 l2 show ?thesis by blast
qed

lemma restarted_stream_eq:
  "restarted_stream =
     \<lparr>streams = [''sys'' \<mapsto> 1],
      store = [\<lparr>ID = ''sys'', Service = [], StreamType = LogStreamTypeCommand,
                cmd = Some [''journalctl'', ''-f'', ''--no-pager'', ''-o'', ''short-precise''],
                process = Some Killed, file_h = None, done_ch = 1, stopped = True\<rparr>,
               \<lparr>ID = ''sys'', Service = [], StreamType = LogStreamTypeCommand,
                cmd = Some [''journalctl'', ''-f'', ''--no-pager'', ''-o'', ''short-precise''],
                process = Some Running, file_h = None, done_ch = 0, stopped = False\<rparr>],
      goroutines = [ReadPipe 0 Stdout, ReadPipe 0 Stderr, Waiter 0,
                    ReadPipe 1 Stdout, ReadPipe 1 Stderr, Waiter 1]\<rparr>"
  unfolding restarted_stream_def started_stream_eq
  by (simp add: LogStreamer_Stop_def stop_stream_def
      teardown_def StartJournalctlStream_def startCommandStream_def alloc_def register_def
      new_stream_def env_sh_only_def Let_def)

lemma forgotten_stream_reachable: "ls_reachable \<lparr>ls = forgotten_stream, stopping = []\<rparr>"
proof -
  let ?l1 = "snd (StartJournalctlStream env_sh_only ''sys'' NewLogStreamer)"
  let ?l2 = "LogStreamer_Stop ''sys'' ?l1"
  let ?s2 = "\<lparr>ls = ?l2, stopping = []\<rparr>"
  let ?s3 = "\<lparr>ls = restarted_stream, stopping = []\<rparr>"
  have "streams ?l1 ''sys'' = Some 0" by (simp add: started_stream_eq)
  from Stop_is_remove_then_teardown [OF this] started_stream_reachable
  have r2: "ls_reachable ?s2"
    unfolding ls_reachable_def by (rule rtranclp_trans [rotated])
  have "ls_trans ?s2 (?s2\<lparr>ls := snd (StartJournalctlStream env_sh_only ''sys'' (ls ?s2))\<rparr>)"
    by (rule ls_trans.journalctl)
  then have "ls_trans ?s2 ?s3" by (simp add: restarted_stream_def)
  with r2 have r3: "ls_reachable ?s3" by (rule ls_reachable_step)
  have "Waiter 0 \<in> set (goroutines (ls ?s3))" by (simp add: restarted_stream_eq)
  then have "ls_trans ?s3 (?s3\<lparr>ls := cleanupStream (ID (store (ls ?s3) ! 0)) (ls ?s3)\<rparr>)"
    by (rule ls_trans.natural_exit)
  then have "ls_trans ?s3 \<lparr>ls = forgotten_stream, stopping = []\<rparr>"
    by (simp add: forgotten_stream_def)
  with r3 show ?thesis by (rule ls_reachable_step)
qed

text \<open>
  C7 fails for a live unit that is no longer in the registry. In the Log Streamer, the
  stream \<open>sys\<close> is started, stopped and started again; the waiter of the first stream
  then runs \<open>cleanupStream\<close> with the shared identifier and deletes the entry of the
  second stream, whose process is running. \<open>StopAll\<close> finds an empty registry and
  leaves that process running with its done channel open. In the Exec Manager, two
  interleaved calls of \<open>Start\<close> with the identifier \<open>x\<close> both register, the second
  entry replacing the first; \<open>StopAll\<close> kills the second shell, and the first one keeps
  running with its pty open.
\<close>

theorem StopAll_leaves_unregistered_units_running:
  "Waiter 0 \<in> set (goroutines restarted_stream)
   \<and> ID (store restarted_stream ! 0) = ''sys''
   \<and> streams restarted_stream ''sys'' = Some 1
   \<and> process (store restarted_stream ! 1) = Some Running
   \<and> ls_reachable \<lparr>ls = forgotten_stream, stopping = []\<rparr>
   \<and> dom (streams forgotten_stream) = {}
   \<and> dom (streams (LogStreamer_StopAll [] forgotten_stream)) = {}
   \<and> process (store (LogStreamer_StopAll [] forgotten_stream) ! 1) = Some Running
   \<and> done_ch (store (LogStreamer_StopAll [] forgotten_stream) ! 1) = 0
   \<and> sessions overwritten_session ''x'' = Some 1
   \<and> dom (sessions overwritten_session) = {''x''}
   \<and> process_e (store_e overwritten_session ! 0) = Some Running
   \<and> dom (sessions (ExecManager_StopAll [''x''] overwritten_session)) = {}
   \<and> process_e (store_e (ExecManager_StopAll [''x''] overwritten_session) ! 0) = Some Running
   \<and> pty_e (store_e (ExecManager_StopAll [''x''] overwritten_session) ! 0) = Some Open
   \<and> process_e (store_e (ExecManager_StopAll [''x''] overwritten_session) ! 1) = Some Killed"
proof -
  have o: "overwritten_session =
    \<lparr>sessions = [''x'' \<mapsto> 1],
     store_e = [\<lparr>id_e = ''x'', cmd_e = ''/bin/sh'', process_e = Some Running,
                 pty_e = Some Open, done_e = 0\<rparr>,
                \<lparr>id_e = ''x'', cmd_e = ''/bin/sh'', process_e = Some Running,
                 pty_e = Some Open, done_e = 0\<rparr>],
     goroutines_e = [ReadLoop 0, WaitLoop 0, ReadLoop 1, WaitLoop 1],
     onOutput = True, onExit = True, onError = True, invoked = []\<rparr>"
    by (simp add: overwritten_session_def Start_step_def Start_check_def Start_spawn_def
        Start_register_def shellPath_def env_sh_only_def NewExecManager_def Let_def)
  have l: "Waiter 0 \<in> set (goroutines restarted_stream)
   \<and> ID (store restarted_stream ! 0) = ''sys''
   \<and> streams restarted_stream ''sys'' = Some 1
   \<and> process (store restarted_stream ! 1) = Some Running
   \<and> dom (streams forgotten_stream) = {}
   \<and> dom (streams (LogStreamer_StopAll [] forgotten_stream)) = {}
   \<and> process (store (LogStreamer_StopAll [] forgotten_stream) ! 1) = Some Running
   \<and> done_ch (store (LogStreamer_StopAll [] forgotten_stream) ! 1) = 0"
    by (simp add: forgotten_stream_def restarted_stream_eq cleanupStream_def
        LogStreamer_StopAll_def)
  have e: "sessions overwritten_session ''x'' = Some 1
   \<and> dom (sessions overwritten_session) = {''x''}
   \<and> process_e (store_e overwritten_session ! 0) = Some Running
   \<and> dom (sessions (ExecManager_StopAll [''x''] overwritten_session)) = {}
   \<and> process_e (store_e (ExecManager_StopAll [''x''] overwritten_session) ! 0) = Some Running
   \<and> pty_e (store_e (ExecManager_StopAll [''x''] overwritten_session) ! 0) = Some Open
   \<and> process_e (store_e (ExecManager_StopAll [''x''] overwritten_session) ! 1) = Some Killed"
    by (simp add: o ExecManager_StopAll_def ExecManager_Stop_def teardown_e_def)
  from l e forgotten_stream_reachable show ?thesis by simp
qed

section \<open>Exec Manager: shell resolution\<close>

text \<open>
  C9 as stated fails for a shell path that exists and cannot be executed. \<open>Start\<close>
  tests the path with \<open>fileExists\<close> only, keeps it, and when \<open>pty.Start\<close> fails on
  it returns that error with the manager unchanged, although \<open>/bin/bash\<close> exists and
  could be spawned.
\<close>

theorem nonexecutable_shell_counterexample:
  "fileExists env_noexec ''/opt/strux/shell''
   \<and> \<not> pty_Start env_noexec ''/opt/strux/shell''
   \<and> fileExists env_noexec ''/bin/bash''
   \<and> pty_Start env_noexec ''/bin/bash''
   \<and> shellPath (fileExists env_noexec) ''/opt/strux/shell'' = ''/opt/strux/shell''
   \<and> ExecManager_Start env_noexec ''shell-1'' ''/opt/strux/shell'' (NewExecManager True True True)
       = (Inl PtyStartFailed, NewExecManager True True True)"
  by (simp add: env_noexec_def shellPath_def ExecManager_Start_def Start_check_def
      Start_spawn_def NewExecManager_def Let_def)

text \<open>
  C9, amended. For every shell path given to \<open>Start\<close> with an identifier that is not
  registered, the shell that \<open>Start\<close> hands to \<open>pty.Start\<close> is the path itself when
  it is non-empty and \<open>fileExists\<close> reports it, otherwise \<open>/bin/bash\<close> when
  \<open>fileExists\<close> reports that, otherwise \<open>/bin/sh\<close>. When \<open>pty.Start\<close> succeeds on
  that shell, \<open>Start\<close> returns no error and registers a new live session running it,
  with its read loop and its wait loop; when \<open>pty.Start\<close> fails on it, \<open>Start\<close>
  returns the pty error, changes nothing and tries no other shell.
\<close>

theorem Start_spawns_the_shell_that_fileExists_selects:
  assumes "sessions m sessionID = None"
  shows
    "ExecManager_Start e sessionID shell m =
       (if pty_Start e
             (if shell \<noteq> [] \<and> fileExists e shell then shell
              else if fileExists e ''/bin/bash'' then ''/bin/bash'' else ''/bin/sh'')
        then (Inr (),
              m\<lparr>store_e := store_e m @
                   [\<lparr>id_e = sessionID,
                     cmd_e = (if shell \<noteq> [] \<and> fileExists e shell then shell
                              else if fileExists e ''/bin/bash'' then ''/bin/bash''
                              else ''/bin/sh''),
                     process_e = Some Running, pty_e = Some Open, done_e = 0\<rparr>],
                sessions := (sessions m)(sessionID \<mapsto> length (store_e m)),
                goroutines_e := goroutines_e m @
                   [ReadLoop (length (store_e m)), WaitLoop (length (store_e m))]\<rparr>)
        else (Inl PtyStartFailed, m))"
  using assms
  by (simp add: ExecManager_Start_def Start_check_def Start_spawn_def Start_register_def
      shellPath_def Let_def)

theorem Start_spawns_the_shell_that_fileExists_selects_witness:
  "sessions (NewExecManager True True True) ''shell-1'' = None
   \<and> ExecManager_Start env_sh_only ''shell-1'' [] (NewExecManager True True True) =
       (Inr (),
        \<lparr>sessions = [''shell-1'' \<mapsto> 0],
         store_e = [\<lparr>id_e = ''shell-1'', cmd_e = ''/bin/sh'', process_e = Some Running,
                     pty_e = Some Open, done_e = 0\<rparr>],
         goroutines_e = [ReadLoop 0, WaitLoop 0],
         onOutput = True, onExit = True, onError = True, invoked = []\<rparr>)
   \<and> ExecManager_Start env_noexec ''shell-1'' ''/bin/zsh'' (NewExecManager True True True) =
       (Inr (),
        \<lparr>sessions = [''shell-1'' \<mapsto> 0],
         store_e = [\<lparr>id_e = ''shell-1'', cmd_e = ''/bin/bash'', process_e = Some Running,
                     pty_e = Some Open, done_e = 0\<rparr>],
         goroutines_e = [ReadLoop 0, WaitLoop 0],
         onOutput = True, onExit = True, onError = True, invoked = []\<rparr>)"
proof -
  have h: "sessions (NewExecManager True True True) ''shell-1'' = None"
    by (simp add: NewExecManager_def)
  show ?thesis
    using h Start_spawns_the_shell_that_fileExists_selects [OF h, of env_sh_only "[]"]
      Start_spawns_the_shell_that_fileExists_selects [OF h, of env_noexec "''/bin/zsh''"]
    by (simp add: env_sh_only_def env_noexec_def NewExecManager_def)
qed

end
